theory Spec2Isabelle
  imports Main "HOL-Library.Word"
begin

section \<open>Machine integers\<close>

text \<open>
  \<open>uint32_t\<close> and \<open>uint64_t\<close> are words: addition and subtraction wrap around. A C \<open>int\<close>
  is kept as the 32-bit pattern that holds it (\<open>sint\<close> reads its value), so the cast
  \<open>(uint32_t)\<close> of an \<open>int\<close> is the identity on the bits.
\<close>

type_synonym u32 = "32 word"
type_synonym u64 = "64 word"

section \<open>Thread count of the pool (threadpool.c, pool_threads_init)\<close>

text \<open>
  The C library's \<open>atoi\<close>: leading white space, an optional sign, then decimal digits up
  to the first character that is not one. The result is a C \<open>int\<close>; a value outside its
  range is undefined in C and is reduced modulo \<open>2^32\<close> here.
\<close>

definition isspace :: "char \<Rightarrow> bool" where
  "isspace c = ((of_char c :: nat) = 32 \<or> (9 \<le> (of_char c :: nat) \<and> (of_char c :: nat) \<le> 13))"

definition isdigit :: "char \<Rightarrow> bool" where
  "isdigit c = (48 \<le> (of_char c :: nat) \<and> (of_char c :: nat) \<le> 57)"

fun atoi_digits :: "int \<Rightarrow> string \<Rightarrow> int" where
  "atoi_digits acc [] = acc"
| "atoi_digits acc (c # cs) =
     (if isdigit c then atoi_digits (10 * acc + (of_char c - 48)) cs else acc)"

definition atoi :: "string \<Rightarrow> u32" where
  "atoi s =
     (case dropWhile isspace s of
        [] \<Rightarrow> 0
      | c # cs \<Rightarrow>
          if c = CHR ''-'' then word_of_int (- atoi_digits 0 cs)
          else if c = CHR ''+'' then word_of_int (atoi_digits 0 cs)
          else word_of_int (atoi_digits 0 (c # cs)))"

definition POOL_THREADPOOL_SIZE :: u32 where
  "POOL_THREADPOOL_SIZE = 4"

definition MAX_THREADPOOL_SIZE :: u32 where
  "MAX_THREADPOOL_SIZE = 1024"

text \<open>
  Lines 386 to 394 of \<open>pool_threads_init\<close>. The argument is what
  \<open>getenv("POOL_THREADPOOL_SIZE")\<close> returns (\<open>None\<close> for \<open>NULL\<close>).
  \<^verbatim>\<open>
  pi->nthreads = POOL_THREADPOOL_SIZE;
  val = getenv("POOL_THREADPOOL_SIZE");
  if (val != NULL)
          pi->nthreads = (uint32_t)atoi(val);
  if (pi->nthreads == 0)
          pi->nthreads = 1;
  if (pi->nthreads > MAX_THREADPOOL_SIZE)
          pi->nthreads = MAX_THREADPOOL_SIZE;
  \<close>
\<close>

definition pool_threads_init_nthreads :: "string option \<Rightarrow> u32" where
  "pool_threads_init_nthreads val =
     (let n0 = POOL_THREADPOOL_SIZE;
          n1 = (case val of None \<Rightarrow> n0 | Some v \<Rightarrow> atoi v);
          n2 = (if n1 = 0 then 1 else n1);
          n3 = (if n2 > MAX_THREADPOOL_SIZE then MAX_THREADPOOL_SIZE else n2)
      in n3)"

section \<open>The id generator (metrics.c, id_generate)\<close>





section \<open>The registries (spec 4.7)\<close>









section \<open>The thread pool (threadpool.c)\<close>

subsection \<open>Work items, queues and the state of the pool\<close>

text \<open>
  Modelled from the spec: the header \<open>threadpool.h\<close> with \<open>enum pool_work_type\<close> is not
  among the sources. The spec lists the work classes as UNORD, BAR, ORD1 ... ORDk, the
  ordered classes being integers from ORD1 on; the code compares them with \<open>>\<close> and
  \<open>>=\<close> (\<open>type > WT_UNORD\<close>, \<open>type >= WT_ORD1\<close>, \<open>wtype > WT_BAR\<close>). A work type is a natural
  number, with the three named values in the order of the enumeration.
\<close>

definition WT_UNORD :: nat where
  "WT_UNORD = 0"

definition WT_BAR :: nat where
  "WT_BAR = 1"

definition WT_ORD1 :: nat where
  "WT_ORD1 = 2"

text \<open>
  A \<open>pool_work_t\<close>. The callbacks are not part of the model: what they do outside the pool is
  not observed, and calling them is recorded as an event. The field \<open>wid\<close> is a ghost
  field: it stands for the identity (the address) of the object and is the number of
  submissions made before this one.
\<close>

record pool_work =
  wid :: nat
  type :: nat
  thread_id :: u32

text \<open>
  Modelled from the spec: \<open>queue.h\<close> is not among the sources. The spec describes a FIFO
  queue with the operations empty, head, insert at the tail, remove and move; a queue is the
  list of its items, head first.
\<close>

type_synonym queue = "pool_work list"

datatype planner_states = PS_NOTHING | PS_DRAINING | PS_BARRIER | PS_DRAINING_UNORD | PS_EXITED

text \<open>
  What the threads do that a claim can speak of, in the order it happens (a ghost log):
  \<open>pool_queue_work\<close> has queued an item; the planner has pushed an item to the inbox of its
  worker; worker \<open>idx\<close> calls the work callback of an item (\<open>queue_work\<close>); the callback has
  returned and the item is on the output queue; the planner has taken a barrier off the
  ordered queue and freed it; the loop thread has run \<open>queue_done\<close> on an item (which calls
  its after-work callback).
\<close>

datatype event =
    EvSubmit pool_work
  | EvDispatch pool_work
  | EvWorkCb nat pool_work
  | EvWorkDone nat pool_work
  | EvBarFree pool_work
  | EvAfterWork pool_work

text \<open>
  Where a thread stands. The planner holds the pool mutex except while it waits on its
  condition variable (\<open>P_WAIT\<close>) and after it has returned (\<open>P_RET\<close>). A worker is at the top
  of its loop (it needs the mutex to go on), runs the work callback of an item it popped,
  has put the item on the output queue and needs the mutex to adjust \<open>in_flight\<close> (it
  remembers \<open>wtype\<close>), or has returned.
\<close>

datatype planner_pc = P_RUN | P_WAIT | P_RET

datatype worker_pc = W_TOP | W_WORK pool_work | W_POST nat | W_RET

text \<open>
  A failed \<open>PRE\<close>, \<open>POST\<close> or \<open>assert\<close> aborts the process. \<open>Blocked\<close> is not an outcome of the
  code: it says that the thread cannot take this step now (it waits for the mutex or on a
  condition variable, or it has returned).
\<close>

datatype fault = Abort | Blocked

text \<open>
  \<open>struct pool_impl\<close>, with the inbox of thread \<open>i\<close> as \<open>inq i\<close>, the place of worker \<open>i\<close> as
  \<open>worker_at i\<close>, the local queue \<open>q\<close> of \<open>work_done\<close> as \<open>doneq\<close>, and the log \<open>hist\<close>.
\<close>

record pool_impl =
  nthreads :: u32
  inq :: "nat \<Rightarrow> queue"
  worker_at :: "nat \<Rightarrow> worker_pc"
  outq :: queue
  doneq :: queue
  active_ws :: u64
  ordered :: queue
  unordered :: queue
  planner_sm :: planner_states
  planner_at :: planner_pc
  in_flight :: u32
  exiting :: bool
  o_prev :: nat
  qos :: u32
  hist :: "event list"

subsection \<open>Helpers (lines 122 to 188)\<close>

definition has_active_ws :: "pool_impl \<Rightarrow> bool" where
  "has_active_ws pi = (active_ws pi > 0)"

definition w_register :: "pool_impl \<Rightarrow> pool_work \<Rightarrow> pool_impl" where
  "w_register pi w = (if type w \<noteq> WT_BAR then pi\<lparr>active_ws := active_ws pi + 1\<rparr> else pi)"

definition w_unregister :: "pool_impl \<Rightarrow> fault + pool_impl" where
  "w_unregister pi =
     (if has_active_ws pi then Inr (pi\<lparr>active_ws := active_ws pi - 1\<rparr>) else Inl Abort)"

definition empty :: "queue \<Rightarrow> bool" where
  "empty q = (q = [])"

text \<open>The head of an empty queue is not an item: \<open>None\<close>.\<close>

definition head :: "queue \<Rightarrow> pool_work option" where
  "head q = (case q of [] \<Rightarrow> None | w # _ \<Rightarrow> Some w)"

definition push :: "queue \<Rightarrow> pool_work \<Rightarrow> queue" where
  "push to what = to @ [what]"

text \<open>\<open>pop\<close> is only called on a queue that is not empty; on an empty one the model aborts.\<close>

definition pop :: "queue \<Rightarrow> fault + pool_work \<times> queue" where
  "pop fromq = (case fromq of [] \<Rightarrow> Inl Abort | q # rest \<Rightarrow> Inr (q, rest))"

text \<open>
  \<^verbatim>\<open>
  static queue *qos_pop(uint32_t *qos, queue *first, queue *second)
  {
          PRE(!empty(first) || !empty(second));
          if (empty(first))
                  return pop(second);
          else if (empty(second))
                  return pop(first);
          return pop((*qos)++ % 2 ? first : second);
  }
  \<close>
  The result is the item, the new counter and the two queues.
\<close>

definition qos_pop :: "u32 \<Rightarrow> queue \<Rightarrow> queue \<Rightarrow> fault + pool_work \<times> u32 \<times> queue \<times> queue" where
  "qos_pop qs first second =
     (if \<not> (\<not> empty first \<or> \<not> empty second) then Inl Abort
      else if empty first then
        (case pop second of Inl e \<Rightarrow> Inl e | Inr (q, second') \<Rightarrow> Inr (q, qs, first, second'))
      else if empty second then
        (case pop first of Inl e \<Rightarrow> Inl e | Inr (q, first') \<Rightarrow> Inr (q, qs, first', second))
      else if qs mod 2 \<noteq> 0 then
        (case pop first of Inl e \<Rightarrow> Inl e | Inr (q, first') \<Rightarrow> Inr (q, qs + 1, first', second))
      else
        (case pop second of Inl e \<Rightarrow> Inl e | Inr (q, second') \<Rightarrow> Inr (q, qs + 1, first, second')))"

definition q_type :: "pool_work option \<Rightarrow> nat option" where
  "q_type q = map_option type q"

subsection \<open>The planner's state machine (lines 39 to 75 and 190 to 209)\<close>

definition planner_states_allowed :: "planner_states \<Rightarrow> planner_states list" where
  "planner_states_allowed st =
     (case st of
        PS_NOTHING \<Rightarrow> [PS_DRAINING, PS_EXITED]
      | PS_DRAINING \<Rightarrow> [PS_DRAINING, PS_NOTHING, PS_BARRIER]
      | PS_BARRIER \<Rightarrow> [PS_DRAINING_UNORD, PS_DRAINING, PS_BARRIER]
      | PS_DRAINING_UNORD \<Rightarrow> [PS_BARRIER]
      | PS_EXITED \<Rightarrow> [])"

text \<open>
  \<open>planner_invariant\<close>, with \<open>ERGO(a, b)\<close> written as the implication it is. The state machine
  is in its new state when the invariant is evaluated.
\<close>

definition planner_invariant :: "pool_impl \<Rightarrow> planner_states \<Rightarrow> bool" where
  "planner_invariant pi prev_state =
     ((planner_sm pi = PS_NOTHING \<longrightarrow> empty (ordered pi) \<and> empty (unordered pi)) \<and>
      (planner_sm pi = PS_DRAINING \<longrightarrow>
         (prev_state = PS_BARRIER \<longrightarrow> in_flight pi = 0 \<and> empty (unordered pi)) \<and>
         (prev_state = PS_NOTHING \<longrightarrow> \<not> empty (unordered pi) \<or> \<not> empty (ordered pi))) \<and>
      (planner_sm pi = PS_EXITED \<longrightarrow>
         exiting pi \<and> empty (ordered pi) \<and> empty (unordered pi)) \<and>
      (planner_sm pi = PS_BARRIER \<longrightarrow>
         (prev_state = PS_DRAINING \<longrightarrow> q_type (head (ordered pi)) = Some WT_BAR) \<and>
         (prev_state = PS_DRAINING_UNORD \<longrightarrow> empty (unordered pi))) \<and>
      (planner_sm pi = PS_DRAINING_UNORD \<longrightarrow> \<not> empty (unordered pi)))"

text \<open>
  Modelled from the spec: \<open>sm.h\<close> is not among the sources. The spec says of \<open>sm_move\<close>: it
  asserts that the new state is allowed after the current one, then evaluates the
  invariant, which receives the old and the new state; any violation is fatal.
\<close>

definition sm_move :: "pool_impl \<Rightarrow> planner_states \<Rightarrow> fault + pool_impl" where
  "sm_move pi st =
     (if st \<notin> set (planner_states_allowed (planner_sm pi)) then Inl Abort
      else if \<not> planner_invariant (pi\<lparr>planner_sm := st\<rparr>) (planner_sm pi) then Inl Abort
      else Inr (pi\<lparr>planner_sm := st\<rparr>))"

subsection \<open>The planner thread (lines 211 to 281)\<close>

text \<open>
  \<^verbatim>\<open>
  push(&ts[q_tid(q)].inq, q);
  uv_cond_signal(&ts[q_tid(q)].cond);
  \<close>
  There are \<open>nthreads\<close> inboxes; an index outside the array is an abort in the model.
\<close>

definition to_worker :: "pool_work \<Rightarrow> pool_impl \<Rightarrow> fault + pool_impl" where
  "to_worker q pi =
     (if unat (thread_id q) < unat (nthreads pi) then
        Inr (pi\<lparr>inq := (inq pi)(unat (thread_id q) := push (inq pi (unat (thread_id q))) q),
                hist := hist pi @ [EvDispatch q]\<rparr>)
      else Inl Abort)"

text \<open>
  The body of the loop of \<open>PS_DRAINING\<close> after the test for a barrier (lines 241 to 245):
  \<^verbatim>\<open>
  q = qos_pop(&pi->qos, o, u);
  push(&ts[q_tid(q)].inq, q);
  uv_cond_signal(&ts[q_tid(q)].cond);
  if (q_type(q) >= WT_ORD1)
          pi->in_flight++;
  \<close>
\<close>

definition drain_one :: "pool_impl \<Rightarrow> fault + pool_impl" where
  "drain_one pi =
     (case qos_pop (qos pi) (ordered pi) (unordered pi) of
        Inl e \<Rightarrow> Inl e
      | Inr (q, qs, first, second) \<Rightarrow>
          (case to_worker q (pi\<lparr>qos := qs, ordered := first, unordered := second\<rparr>) of
             Inl e \<Rightarrow> Inl e
           | Inr pi' \<Rightarrow>
               Inr (if WT_ORD1 \<le> type q then pi'\<lparr>in_flight := in_flight pi' + 1\<rparr> else pi')))"

lemma sm_move_queues:
  "sm_move pi st = Inr pi' \<Longrightarrow> ordered pi' = ordered pi \<and> unordered pi' = unordered pi"
  by (auto simp: sm_move_def split: if_splits)

lemma drain_one_length:
  "drain_one pi = Inr pi' \<Longrightarrow>
   length (ordered pi') + length (unordered pi') < length (ordered pi) + length (unordered pi)"
  by (auto simp: drain_one_def qos_pop_def pop_def to_worker_def empty_def
      split: sum.splits if_splits list.splits prod.splits)

text \<open>
  \<open>case PS_DRAINING\<close> (lines 234 to 249), from the test of the loop to the \<open>break\<close>:
  \<^verbatim>\<open>
  while (!(empty(o) && empty(u))) {
          sm_move(planner_sm, PS_DRAINING);
          if (!empty(o) && q_type(head(o)) == WT_BAR) {
                  sm_move(planner_sm, PS_BARRIER);
                  goto ps_barrier;
          }
          ...
  }
  sm_move(planner_sm, PS_NOTHING);
  \<close>
\<close>

function draining_loop :: "pool_impl \<Rightarrow> fault + pool_impl" where
  "draining_loop pi =
     (if \<not> (empty (ordered pi) \<and> empty (unordered pi)) then
        (case sm_move pi PS_DRAINING of
           Inl e \<Rightarrow> Inl e
         | Inr pi1 \<Rightarrow>
             if \<not> empty (ordered pi1) \<and> q_type (head (ordered pi1)) = Some WT_BAR then
               sm_move pi1 PS_BARRIER
             else
               (case drain_one pi1 of
                  Inl e \<Rightarrow> Inl e
                | Inr pi2 \<Rightarrow> draining_loop pi2))
      else sm_move pi PS_NOTHING)"
  by pat_completeness auto
termination
  by (relation "measure (\<lambda>pi. length (ordered pi) + length (unordered pi))")
    (auto dest!: sm_move_queues drain_one_length)

declare draining_loop.simps [simp del]

text \<open>
  \<open>case PS_DRAINING_UNORD\<close> (lines 265 to 272). No item it moves is counted in
  \<open>in_flight\<close>.
  \<^verbatim>\<open>
  while (!empty(u)) {
          q = pop(u);
          push(&ts[q_tid(q)].inq, q);
          uv_cond_signal(&ts[q_tid(q)].cond);
  }
  sm_move(planner_sm, PS_BARRIER);
  \<close>
\<close>

definition unord_one :: "pool_impl \<Rightarrow> fault + pool_impl" where
  "unord_one pi =
     (case pop (unordered pi) of
        Inl e \<Rightarrow> Inl e
      | Inr (q, second) \<Rightarrow> to_worker q (pi\<lparr>unordered := second\<rparr>))"

lemma unord_one_length:
  "unord_one pi = Inr pi' \<Longrightarrow> length (unordered pi') < length (unordered pi)"
  by (auto simp: unord_one_def pop_def to_worker_def split: sum.splits if_splits list.splits)

function draining_unord_loop :: "pool_impl \<Rightarrow> fault + pool_impl" where
  "draining_unord_loop pi =
     (if \<not> empty (unordered pi) then
        (case unord_one pi of
           Inl e \<Rightarrow> Inl e
         | Inr pi1 \<Rightarrow> draining_unord_loop pi1)
      else sm_move pi PS_BARRIER)"
  by pat_completeness auto
termination
  by (relation "measure (\<lambda>pi. length (unordered pi))") (auto dest!: unord_one_length)

declare draining_unord_loop.simps [simp del]

text \<open>
  One pass through the \<open>switch\<close> of the planner's \<open>for (;;)\<close> loop, which the planner makes
  with the mutex held. In \<open>PS_NOTHING\<close> the pass is one test of the \<open>while\<close> condition: when
  it holds, the planner waits (and tests again after it has been woken). In \<open>PS_BARRIER\<close>
  the planner waits when \<open>in_flight\<close> is not zero; what follows the wait is in
  \<open>planner_wakeup\<close>. In \<open>PS_EXITED\<close> the planner unlocks the mutex and returns.
\<close>

definition planner :: "pool_impl \<Rightarrow> fault + pool_impl" where
  "planner pi =
     (case planner_sm pi of
        PS_NOTHING \<Rightarrow>
          if empty (ordered pi) \<and> empty (unordered pi) \<and> \<not> exiting pi then
            Inr (pi\<lparr>planner_at := P_WAIT\<rparr>)
          else sm_move pi (if exiting pi then PS_EXITED else PS_DRAINING)
      | PS_DRAINING \<Rightarrow> draining_loop pi
      | PS_BARRIER \<Rightarrow>
          if \<not> empty (unordered pi) then sm_move pi PS_DRAINING_UNORD
          else if in_flight pi = 0 then
            (case pop (ordered pi) of
               Inl e \<Rightarrow> Inl e
             | Inr (q, first) \<Rightarrow>
                 if \<not> type q = WT_BAR then Inl Abort
                 else sm_move (pi\<lparr>ordered := first, hist := hist pi @ [EvBarFree q]\<rparr>)
                        PS_DRAINING)
          else Inr (pi\<lparr>planner_at := P_WAIT\<rparr>)
      | PS_DRAINING_UNORD \<Rightarrow> draining_unord_loop pi
      | PS_EXITED \<Rightarrow> Inr (pi\<lparr>planner_at := P_RET\<rparr>))"

text \<open>
  \<open>uv_cond_wait\<close> returns (after a signal, or spuriously) with the mutex held. In
  \<open>PS_BARRIER\<close> the planner then does \<open>sm_move(planner_sm, PS_BARRIER)\<close> (line 263).
\<close>

definition planner_wakeup :: "pool_impl \<Rightarrow> fault + pool_impl" where
  "planner_wakeup pi =
     (case planner_sm pi of
        PS_BARRIER \<Rightarrow> sm_move (pi\<lparr>planner_at := P_RUN\<rparr>) PS_BARRIER
      | _ \<Rightarrow> Inr (pi\<lparr>planner_at := P_RUN\<rparr>))"

definition mutex_free :: "pool_impl \<Rightarrow> bool" where
  "mutex_free pi = (planner_at pi \<noteq> P_RUN)"

subsection \<open>A worker thread (lines 295 to 336)\<close>

text \<open>
  With the mutex: an empty inbox sends the worker to sleep, or makes it return when the
  pool is exiting; otherwise it pops an item, unlocks and calls the work callback
  (lines 309 to 322).
\<close>

definition worker_top :: "nat \<Rightarrow> pool_impl \<Rightarrow> fault + pool_impl" where
  "worker_top idx pi =
     (if empty (inq pi idx) then
        (if exiting pi then Inr (pi\<lparr>worker_at := (worker_at pi)(idx := W_RET)\<rparr>)
         else Inl Blocked)
      else
        (case pop (inq pi idx) of
           Inl e \<Rightarrow> Inl e
         | Inr (q, rest) \<Rightarrow>
             Inr (pi\<lparr>inq := (inq pi)(idx := rest),
                     worker_at := (worker_at pi)(idx := W_WORK q),
                     hist := hist pi @ [EvWorkCb idx q]\<rparr>)))"

text \<open>The work callback returns; the item goes to the output queue under that queue's own
  mutex, and the loop thread is notified (lines 322 to 327).\<close>

definition worker_work :: "nat \<Rightarrow> pool_work \<Rightarrow> pool_impl \<Rightarrow> fault + pool_impl" where
  "worker_work idx w pi =
     Inr (pi\<lparr>outq := push (outq pi) w,
             worker_at := (worker_at pi)(idx := W_POST (type w)),
             hist := hist pi @ [EvWorkDone idx w]\<rparr>)"

text \<open>
  With the mutex again (lines 329 to 334):
  \<^verbatim>\<open>
  if (wtype > WT_BAR) {
      assert(pi->in_flight > 0);
      if (--pi->in_flight == 0)
              uv_cond_signal(&pi->planner_cond);
  }
  \<close>
\<close>

definition worker_post :: "nat \<Rightarrow> nat \<Rightarrow> pool_impl \<Rightarrow> fault + pool_impl" where
  "worker_post idx wtype pi =
     (if wtype > WT_BAR then
        (if \<not> in_flight pi > 0 then Inl Abort
         else Inr (pi\<lparr>in_flight := in_flight pi - 1,
                      worker_at := (worker_at pi)(idx := W_TOP)\<rparr>))
      else Inr (pi\<lparr>worker_at := (worker_at pi)(idx := W_TOP)\<rparr>))"

text \<open>
  The next step of worker \<open>idx\<close>, one of the \<open>nthreads\<close> workers. In the code a worker
  keeps the mutex from the adjustment of \<open>in_flight\<close> to the next pop; here these are two
  steps, so other threads may run between them: every run of the code is a run of the
  model.
\<close>

definition worker :: "nat \<Rightarrow> pool_impl \<Rightarrow> fault + pool_impl" where
  "worker idx pi =
     (if \<not> idx < unat (nthreads pi) then Inl Blocked
      else
        (case worker_at pi idx of
           W_TOP \<Rightarrow> if mutex_free pi then worker_top idx pi else Inl Blocked
         | W_WORK w \<Rightarrow> worker_work idx w pi
         | W_POST wtype \<Rightarrow> if mutex_free pi then worker_post idx wtype pi else Inl Blocked
         | W_RET \<Rightarrow> Inl Blocked))"

subsection \<open>The loop thread (lines 338 to 483)\<close>

text \<open>\<open>pool_cleanup\<close> up to the first join: it sets \<open>exiting\<close> (line 347).\<close>

definition pool_cleanup :: "pool_impl \<Rightarrow> pool_impl" where
  "pool_cleanup pi = (if nthreads pi = 0 then pi else pi\<lparr>exiting := True\<rparr>)"

text \<open>
  \<^verbatim>\<open>
  if (w->type > WT_UNORD) {
          /* Make sure that elements in the ordered queue come in order. */
          PRE(ERGO(pi->o_prev != WT_BAR && w->type != WT_BAR,
                   pi->o_prev == w->type));
          pi->o_prev = w->type;
  }
  uv_mutex_lock(&pi->mutex);
  push(w->type == WT_UNORD ? u : o, &w->qlink);
  uv_cond_signal(&pi->planner_cond);
  uv_mutex_unlock(&pi->mutex);
  \<close>
  Only the loop thread reads and writes \<open>o_prev\<close>, so the function is one step, taken when
  the mutex is free.
\<close>

definition pool_work_submit :: "pool_impl \<Rightarrow> pool_work \<Rightarrow> fault + pool_impl" where
  "pool_work_submit pi w =
     (if type w > WT_UNORD \<and>
         \<not> (o_prev pi \<noteq> WT_BAR \<and> type w \<noteq> WT_BAR \<longrightarrow> o_prev pi = type w)
      then Inl Abort
      else if \<not> mutex_free pi then Inl Blocked
      else
        (let pi1 = (if type w > WT_UNORD then pi\<lparr>o_prev := type w\<rparr> else pi)
         in Inr (if type w = WT_UNORD
                 then pi1\<lparr>unordered := push (unordered pi1) w, hist := hist pi1 @ [EvSubmit w]\<rparr>
                 else pi1\<lparr>ordered := push (ordered pi1) w, hist := hist pi1 @ [EvSubmit w]\<rparr>)))"

text \<open>
  \<^verbatim>\<open>
  w_register(pool, w);
  w->loop = &pool->loop;
  w->work_cb = work_cb;
  w->after_work_cb = after_work_cb;
  w->thread_id = cookie % pool->pi->nthreads;
  pool_work_submit(pool, w);
  \<close>
  A remainder of a division by zero is an abort. The callbacks are not modelled, and
  \<open>PRE(work_cb != NULL)\<close> is taken to hold.
\<close>

definition pool_queue_work :: "pool_impl \<Rightarrow> pool_work \<Rightarrow> u32 \<Rightarrow> fault + pool_impl" where
  "pool_queue_work pi w cookie =
     (if nthreads pi = 0 then Inl Abort
      else pool_work_submit (w_register pi w) (w\<lparr>thread_id := cookie mod nthreads pi\<rparr>))"

text \<open>
  \<open>work_done\<close> moves the output queue to its local queue; then, item by item, it pops the
  local queue and calls \<open>queue_done\<close>. The after-work callback that \<open>queue_done\<close> calls may
  queue new work, so each \<open>queue_done\<close> is a step of its own.
  \<^verbatim>\<open>
  static void queue_done(pool_work_t *w)
  {
          w_unregister(uv_loop_to_pool(w->loop), w);
          if (w->after_work_cb != NULL)
                  w->after_work_cb(w);
  }
  \<close>
\<close>

definition work_done :: "pool_impl \<Rightarrow> fault + pool_impl" where
  "work_done pi =
     (if \<not> empty (doneq pi) then Inl Blocked
      else Inr (pi\<lparr>doneq := outq pi, outq := []\<rparr>))"

definition queue_done :: "pool_impl \<Rightarrow> fault + pool_impl" where
  "queue_done pi =
     (if empty (doneq pi) then Inl Blocked
      else
        (case pop (doneq pi) of
           Inl e \<Rightarrow> Inl e
         | Inr (w, rest) \<Rightarrow>
             (case w_unregister (pi\<lparr>doneq := rest\<rparr>) of
                Inl e \<Rightarrow> Inl e
              | Inr pi1 \<Rightarrow> Inr (pi1\<lparr>hist := hist pi1 @ [EvAfterWork w]\<rparr>))))"

subsection \<open>The pool as a transition system\<close>

text \<open>The items queued so far, in the order of their submission.\<close>

definition submitted :: "event list \<Rightarrow> pool_work list" where
  "submitted h = concat (map (\<lambda>e. case e of EvSubmit w \<Rightarrow> [w] | _ \<Rightarrow> []) h)"

text \<open>
  The pool after \<open>pool_init\<close> (\<open>calloc\<close> and lines 382 to 386, 405 to 418): the argument is the
  value of the environment variable. The planner starts with the mutex in \<open>PS_NOTHING\<close>.
\<close>

definition pool_init :: "string option \<Rightarrow> pool_impl" where
  "pool_init val =
     \<lparr>nthreads = pool_threads_init_nthreads val, inq = (\<lambda>_. []), worker_at = (\<lambda>_. W_TOP),
      outq = [], doneq = [], active_ws = 0, ordered = [], unordered = [],
      planner_sm = PS_NOTHING, planner_at = P_RUN, in_flight = 0, exiting = False,
      o_prev = WT_BAR, qos = 0, hist = []\<rparr>"

text \<open>
  The steps of the threads: the loop thread queues an item of a type with a cookie, starts
  \<open>work_done\<close>, runs one \<open>queue_done\<close>, or starts \<open>pool_cleanup\<close>; the planner makes a pass or
  wakes up; worker \<open>idx\<close> makes its next step.
\<close>

datatype action =
    A_queue_work nat u32
  | A_work_done
  | A_queue_done
  | A_cleanup
  | A_planner
  | A_planner_wakeup
  | A_worker nat

definition new_work :: "pool_impl \<Rightarrow> nat \<Rightarrow> pool_work" where
  "new_work pi wtype = \<lparr>wid = length (submitted (hist pi)), type = wtype, thread_id = 0\<rparr>"

fun step :: "action \<Rightarrow> pool_impl \<Rightarrow> fault + pool_impl" where
  "step (A_queue_work wtype cookie) pi = pool_queue_work pi (new_work pi wtype) cookie"
| "step A_work_done pi = work_done pi"
| "step A_queue_done pi = queue_done pi"
| "step A_cleanup pi = Inr (pool_cleanup pi)"
| "step A_planner pi = (if planner_at pi = P_RUN then planner pi else Inl Blocked)"
| "step A_planner_wakeup pi = (if planner_at pi = P_WAIT then planner_wakeup pi else Inl Blocked)"
| "step (A_worker idx) pi = worker idx pi"

fun run :: "action list \<Rightarrow> pool_impl \<Rightarrow> fault + pool_impl" where
  "run [] pi = Inr pi"
| "run (a # as) pi = (case step a pi of Inl e \<Rightarrow> Inl e | Inr pi' \<Rightarrow> run as pi')"

inductive reachable :: "string option \<Rightarrow> pool_impl \<Rightarrow> bool" for val where
  reach_init: "reachable val (pool_init val)"
| reach_step: "reachable val pi \<Longrightarrow> step a pi = Inr pi' \<Longrightarrow> reachable val pi'"

subsection \<open>Projections of the log and the items in flight\<close>

text \<open>An item goes to the ordered queue when its type is above \<open>WT_UNORD\<close>; it is strictly
  ordered (counted in \<open>in_flight\<close>) when its type is \<open>WT_ORD1\<close> or above.\<close>

definition is_o :: "pool_work \<Rightarrow> bool" where
  "is_o w = (WT_UNORD < type w)"

definition is_ord :: "pool_work \<Rightarrow> bool" where
  "is_ord w = (WT_ORD1 \<le> type w)"

fun ev_taken_o :: "event \<Rightarrow> pool_work list" where
  "ev_taken_o (EvDispatch w) = (if is_o w then [w] else [])"
| "ev_taken_o (EvBarFree w) = [w]"
| "ev_taken_o _ = []"

fun ev_taken_u :: "event \<Rightarrow> pool_work list" where
  "ev_taken_u (EvDispatch w) = (if is_o w then [] else [w])"
| "ev_taken_u _ = []"

fun ev_sent_to :: "nat \<Rightarrow> event \<Rightarrow> pool_work list" where
  "ev_sent_to t (EvDispatch w) = (if unat (thread_id w) = t then [w] else [])"
| "ev_sent_to t _ = []"

fun ev_started_on :: "nat \<Rightarrow> event \<Rightarrow> pool_work list" where
  "ev_started_on t (EvWorkCb i w) = (if i = t then [w] else [])"
| "ev_started_on t _ = []"

fun ev_finished_on :: "nat \<Rightarrow> event \<Rightarrow> pool_work list" where
  "ev_finished_on t (EvWorkDone i w) = (if i = t then [w] else [])"
| "ev_finished_on t _ = []"

fun ev_finished :: "event \<Rightarrow> pool_work list" where
  "ev_finished (EvWorkDone i w) = [w]"
| "ev_finished _ = []"

fun ev_afterworked :: "event \<Rightarrow> pool_work list" where
  "ev_afterworked (EvAfterWork w) = [w]"
| "ev_afterworked _ = []"

text \<open>The items that the events of a log select, in the order of the log.\<close>

definition pick :: "(event \<Rightarrow> pool_work list) \<Rightarrow> event list \<Rightarrow> pool_work list" where
  "pick f h = concat (map f h)"

text \<open>
  The strictly ordered items that are with the workers: in an inbox, in a work callback, or
  back from it with \<open>in_flight\<close> not yet adjusted.
\<close>

fun worker_cnt :: "worker_pc \<Rightarrow> nat" where
  "worker_cnt (W_WORK w) = (if is_ord w then 1 else 0)"
| "worker_cnt (W_POST wtype) = (if WT_BAR < wtype then 1 else 0)"
| "worker_cnt _ = 0"

definition pending_of :: "nat \<Rightarrow> (nat \<Rightarrow> queue) \<Rightarrow> (nat \<Rightarrow> worker_pc) \<Rightarrow> nat" where
  "pending_of n inqs at = (\<Sum>t<n. length (filter is_ord (inqs t)) + worker_cnt (at t))"

definition pending :: "pool_impl \<Rightarrow> nat" where
  "pending pi = pending_of (unat (nthreads pi)) (inq pi) (worker_at pi)"

fun running :: "worker_pc \<Rightarrow> pool_work list" where
  "running (W_WORK w) = [w]"
| "running _ = []"

text \<open>The number of items of any type that are in an inbox or in a work callback.\<close>

definition held_of :: "nat \<Rightarrow> (nat \<Rightarrow> queue) \<Rightarrow> (nat \<Rightarrow> worker_pc) \<Rightarrow> nat" where
  "held_of n inqs at = (\<Sum>t<n. length (inqs t) + length (running (at t)))"

definition held :: "pool_impl \<Rightarrow> nat" where
  "held pi = held_of (unat (nthreads pi)) (inq pi) (worker_at pi)"

subsection \<open>The invariant of the pool and the shape of its steps\<close>

text \<open>
  What every reachable state satisfies, for a pool of \<open>n\<close> workers. The ghost \<open>wid\<close>s
  number the submissions. Each queue is first in, first out: the items submitted with an
  ordered type are those that left the ordered queue followed by those on it, and the same
  for the unordered queue; the items sent to worker \<open>t\<close> are those it has started followed
  by its inbox; those it has started are those it has finished followed by the one it
  runs; the finished items are those \<open>queue_done\<close> has seen followed by the local queue of
  \<open>work_done\<close> and the output queue. Only items that are no barrier reach an inbox, and
  only an inbox of the pool; only barriers are freed. \<open>in_flight\<close> counts the strictly
  ordered items with the workers, \<open>active_ws\<close> the registered items, and \<open>o_prev\<close> is the
  type of the last item queued with an ordered type. The \<open>thread_id\<close> of every item
  submitted is the index of a worker. Every item that is no barrier is on a queue of the
  planner, with a worker, or its work is done.
\<close>

definition pool_inv :: "u32 \<Rightarrow> pool_impl \<Rightarrow> bool" where
  "pool_inv n pi =
     (nthreads pi = n \<and>
      map wid (submitted (hist pi)) = [0..<length (submitted (hist pi))] \<and>
      filter is_o (submitted (hist pi)) = pick ev_taken_o (hist pi) @ ordered pi \<and>
      filter (\<lambda>w. \<not> is_o w) (submitted (hist pi)) = pick ev_taken_u (hist pi) @ unordered pi \<and>
      (\<forall>t. pick (ev_sent_to t) (hist pi) = pick (ev_started_on t) (hist pi) @ inq pi t) \<and>
      (\<forall>t. pick (ev_started_on t) (hist pi) =
             pick (ev_finished_on t) (hist pi) @ running (worker_at pi t)) \<and>
      pick ev_finished (hist pi) = pick ev_afterworked (hist pi) @ doneq pi @ outq pi \<and>
      (\<forall>w. EvDispatch w \<in> set (hist pi) \<longrightarrow>
             type w \<noteq> WT_BAR \<and> unat (thread_id w) < unat n) \<and>
      (\<forall>w. EvBarFree w \<in> set (hist pi) \<longrightarrow> type w = WT_BAR) \<and>
      in_flight pi = of_nat (pending pi) \<and>
      pending pi + length (ordered pi) + length (unordered pi) \<le> length (submitted (hist pi)) \<and>
      active_ws pi =
        of_nat (length (filter (\<lambda>w. type w \<noteq> WT_BAR) (submitted (hist pi)))) -
        of_nat (length (pick ev_afterworked (hist pi))) \<and>
      o_prev pi =
        (if filter is_o (submitted (hist pi)) = [] then WT_BAR
         else type (last (filter is_o (submitted (hist pi))))) \<and>
      (\<forall>w\<in>set (submitted (hist pi)). unat (thread_id w) < unat n) \<and>
      length (pick ev_finished (hist pi)) + held pi +
        length (filter (\<lambda>w. type w \<noteq> WT_BAR) (ordered pi)) + length (unordered pi) =
        length (filter (\<lambda>w. type w \<noteq> WT_BAR) (submitted (hist pi))))"

text \<open>
  While the planner is in \<open>PS_BARRIER\<close> or \<open>PS_DRAINING_UNORD\<close>, a barrier is at the head of
  the ordered queue.
\<close>

definition planner_ok :: "pool_impl \<Rightarrow> bool" where
  "planner_ok pi =
     (planner_sm pi \<in> {PS_BARRIER, PS_DRAINING_UNORD} \<longrightarrow>
      q_type (head (ordered pi)) = Some WT_BAR)"

text \<open>Every item on a queue of the planner names an inbox of the pool.\<close>

definition tids_ok :: "pool_impl \<Rightarrow> bool" where
  "tids_ok pi =
     (\<forall>w\<in>set (ordered pi) \<union> set (unordered pi). unat (thread_id w) < unat (nthreads pi))"

text \<open>A step that leaves the loop thread's fields, the workers' places and the planner's
  state alone.\<close>

definition same_frame :: "pool_impl \<Rightarrow> pool_impl \<Rightarrow> bool" where
  "same_frame pi pi' =
     (nthreads pi' = nthreads pi \<and> worker_at pi' = worker_at pi \<and> outq pi' = outq pi \<and>
      doneq pi' = doneq pi \<and> active_ws pi' = active_ws pi \<and> o_prev pi' = o_prev pi \<and>
      exiting pi' = exiting pi \<and> planner_at pi' = planner_at pi \<and>
      planner_sm pi' = planner_sm pi)"

text \<open>The three shapes of a step: it adds events that neither free a barrier nor call a
  work callback; the planner frees the barrier \<open>B\<close>; worker \<open>t\<close> calls the work callback of
  \<open>w\<close>.\<close>

definition grows :: "pool_impl \<Rightarrow> pool_impl \<Rightarrow> bool" where
  "grows pi pi' =
     (\<exists>evs. hist pi' = hist pi @ evs \<and> (\<forall>B. EvBarFree B \<notin> set evs) \<and>
            (\<forall>t w. EvWorkCb t w \<notin> set evs))"

definition bar_freed :: "pool_impl \<Rightarrow> pool_impl \<Rightarrow> pool_work \<Rightarrow> bool" where
  "bar_freed pi pi' B =
     (hist pi' = hist pi @ [EvBarFree B] \<and> planner_sm pi = PS_BARRIER \<and>
      planner_sm pi' = PS_DRAINING \<and> in_flight pi = 0 \<and> unordered pi = [] \<and>
      ordered pi = B # ordered pi' \<and> type B = WT_BAR)"

definition cb_started :: "pool_impl \<Rightarrow> pool_impl \<Rightarrow> nat \<Rightarrow> pool_work \<Rightarrow> bool" where
  "cb_started pi pi' t w =
     (hist pi' = hist pi @ [EvWorkCb t w] \<and> worker_at pi t = W_TOP \<and>
      planner_sm pi' = planner_sm pi)"

subsection \<open>Example runs of a pool with the default four workers\<close>

text \<open>A \<open>WT_ORD1\<close> item is queued and the planner hands it to worker 0.\<close>

definition run_ordered_then_nothing :: "action list" where
  "run_ordered_then_nothing =
     [A_planner, A_queue_work WT_ORD1 0, A_planner_wakeup, A_planner, A_planner]"

text \<open>An unordered item and then a barrier are queued; the planner runs until it has freed
  the barrier.\<close>

definition run_unord_before_bar :: "action list" where
  "run_unord_before_bar =
     [A_planner, A_queue_work WT_UNORD 0, A_queue_work WT_BAR 0, A_planner_wakeup,
      A_planner, A_planner, A_planner, A_planner, A_planner]"

text \<open>A \<open>WT_ORD1\<close> item and a barrier are queued; the planner waits in \<open>PS_BARRIER\<close>; an
  unordered item is queued with cookie 1, the planner hands it over and worker 1 starts
  it.\<close>

definition run_unord_after_bar :: "action list" where
  "run_unord_after_bar =
     [A_planner, A_queue_work WT_ORD1 0, A_queue_work WT_BAR 0, A_planner_wakeup,
      A_planner, A_planner, A_planner, A_queue_work WT_UNORD 1, A_planner_wakeup,
      A_planner, A_planner, A_planner, A_worker 1]"

text \<open>A \<open>WT_ORD1\<close> item and a barrier are queued; worker 0 runs the item to its end; the
  planner wakes up and frees the barrier.\<close>

definition run_bar_after_ordered :: "action list" where
  "run_bar_after_ordered =
     [A_planner, A_queue_work WT_ORD1 0, A_queue_work WT_BAR 0, A_planner_wakeup,
      A_planner, A_planner, A_planner, A_worker 0, A_worker 0, A_worker 0,
      A_planner_wakeup, A_planner]"

text \<open>Two \<open>WT_ORD1\<close> items are queued with cookies 0 and 1; worker 1 runs the second before
  worker 0 starts the first.\<close>

definition run_two_workers :: "action list" where
  "run_two_workers =
     [A_planner, A_queue_work WT_ORD1 0, A_queue_work WT_ORD1 1, A_planner_wakeup,
      A_planner, A_planner, A_planner, A_worker 1, A_worker 1, A_worker 0]"

text \<open>Two \<open>WT_ORD1\<close> items are queued with cookies 0 and 4; worker 0 runs the first and
  starts the second.\<close>

definition run_one_worker :: "action list" where
  "run_one_worker =
     [A_planner, A_queue_work WT_ORD1 0, A_queue_work WT_ORD1 4, A_planner_wakeup,
      A_planner, A_planner, A_planner, A_worker 0, A_worker 0, A_worker 0, A_worker 0]"

section \<open>The gateway (test_gateway.c)\<close>

subsection \<open>OPEN\<close>

text \<open>
  Modelled from the spec: \<open>gateway.c\<close> (\<open>dqlite__gateway_handle\<close>), the database registry
  and the SQLite library are not among the sources; \<open>test_gateway.c\<close> holds the requests
  and the responses it expects. The spec says of OPEN: its inputs are a name, flags and a
  VFS name; the result is a database id, or \<open>DB_ERROR\<close> with the SQLite code when the flags
  are invalid or the VFS is unknown; a \<open>DB_ERROR\<close> carries SQLite's result code, its
  extended code and a description; the first database opened has id 0. Which flags SQLite
  finds invalid, and its text for a code, are SQLite's own: the low three bits of the flags
  must be \<open>READONLY\<close>, \<open>READWRITE\<close> or \<open>READWRITE | CREATE\<close>, and the call is a misuse
  otherwise.
\<close>

definition SQLITE_OPEN_READONLY :: u32 where
  "SQLITE_OPEN_READONLY = 1"

definition SQLITE_OPEN_READWRITE :: u32 where
  "SQLITE_OPEN_READWRITE = 2"

definition SQLITE_OPEN_CREATE :: u32 where
  "SQLITE_OPEN_CREATE = 4"

definition SQLITE_OK :: int where
  "SQLITE_OK = 0"

definition SQLITE_ERROR :: int where
  "SQLITE_ERROR = 1"

definition SQLITE_MISUSE :: int where
  "SQLITE_MISUSE = 21"

text \<open>Modelled from the spec: the result code of SQLite's \<open>sqlite3_open_v2\<close>, given the names
  of the registered VFSs.\<close>

definition sqlite3_open_v2 :: "string list \<Rightarrow> string \<Rightarrow> u32 \<Rightarrow> string \<Rightarrow> int" where
  "sqlite3_open_v2 vfss filename flags zVfs =
     (if take_bit 3 flags \<notin> {SQLITE_OPEN_READONLY, SQLITE_OPEN_READWRITE,
           or SQLITE_OPEN_READWRITE SQLITE_OPEN_CREATE}
      then SQLITE_MISUSE
      else if zVfs \<notin> set vfss then SQLITE_ERROR
      else SQLITE_OK)"

text \<open>Modelled from the spec: SQLite's text for a result code (\<open>sqlite3_errstr\<close>).\<close>

definition sqlite3_errstr :: "int \<Rightarrow> string" where
  "sqlite3_errstr rc =
     (if rc = SQLITE_OK then ''not an error''
      else if rc = SQLITE_ERROR then ''SQL logic error''
      else if rc = SQLITE_MISUSE then ''bad parameter or other API misuse''
      else ''unknown error'')"

record open_request =
  name :: string
  flags :: u32
  vfs :: string

datatype response =
    DQLITE_DB u32
  | DQLITE_DB_ERROR int int string

text \<open>The gateway's part of the state: the registered VFSs and the registry of open
  databases (file names; the id of a database is its index).\<close>

record gateway =
  vfss :: "string list"
  dbs :: "string list"

text \<open>Modelled from the spec: \<open>dqlite__gateway_handle\<close> on an OPEN request. The result is the
  handler's error code (0 when the request was handled), the response and the gateway.\<close>

definition gateway_handle_open :: "gateway \<Rightarrow> open_request \<Rightarrow> int \<times> response \<times> gateway" where
  "gateway_handle_open g r =
     (let rc = sqlite3_open_v2 (vfss g) (name r) (flags r) (vfs r)
      in if rc \<noteq> SQLITE_OK then (0, DQLITE_DB_ERROR rc rc (sqlite3_errstr rc), g)
         else (0, DQLITE_DB (of_nat (length (dbs g))), g\<lparr>dbs := dbs g @ [name r]\<rparr>))"

text \<open>The gateway of the test's setup: the VFS \<open>volatile\<close> is registered, no database is
  open.\<close>

definition test_gateway :: gateway where
  "test_gateway = \<lparr>vfss = [''volatile''], dbs = []\<rparr>"

subsection \<open>QUERY: the body of a ROWS response\<close>

text \<open>
  Modelled from the spec: the code that writes the rows (\<open>gateway.c\<close>, the statement and
  the message buffer) and SQLite are not among the sources. The spec says: a QUERY's
  worker serialises a header \<open>uint64\<close> describing the column types (4 bits per column,
  little-endian nibbles) followed by the per-column payloads; integers are \<open>uint64\<close>
  little-endian, floats IEEE-754 little-endian. The rows are those that SQLite returns for
  the statement; a column value is an integer or a float (given by its 64 bits). Other
  column types, and rows of more than 16 columns, are outside the model (\<open>None\<close>).
\<close>

definition SQLITE_INTEGER :: nat where
  "SQLITE_INTEGER = 1"

definition SQLITE_FLOAT :: nat where
  "SQLITE_FLOAT = 2"

datatype column_value = V_INTEGER u64 | V_FLOAT u64

fun column_type :: "column_value \<Rightarrow> nat" where
  "column_type (V_INTEGER _) = SQLITE_INTEGER"
| "column_type (V_FLOAT _) = SQLITE_FLOAT"

fun column_bits :: "column_value \<Rightarrow> u64" where
  "column_bits (V_INTEGER x) = x"
| "column_bits (V_FLOAT x) = x"

text \<open>A 64-bit word as 8 bytes, the least significant first, and back.\<close>

definition put_uint64 :: "u64 \<Rightarrow> 8 word list" where
  "put_uint64 x = map (\<lambda>i. ucast (drop_bit (8 * i) x)) [0..<8]"

definition get_uint64 :: "8 word list \<Rightarrow> u64" where
  "get_uint64 bs = foldr (\<lambda>b acc. or (ucast b) (push_bit 8 acc)) (take 8 bs) 0"

text \<open>The header of a row: the type of column \<open>i\<close> in bits \<open>4 i\<close> to \<open>4 i + 3\<close>.\<close>

fun row_header :: "column_value list \<Rightarrow> u64" where
  "row_header [] = 0"
| "row_header (v # vs) = or (of_nat (column_type v)) (push_bit 4 (row_header vs))"

definition put_row :: "column_value list \<Rightarrow> 8 word list option" where
  "put_row vs =
     (if length vs \<le> 16
      then Some (put_uint64 (row_header vs) @ concat (map (\<lambda>v. put_uint64 (column_bits v)) vs))
      else None)"

fun rows_body :: "column_value list list \<Rightarrow> 8 word list option" where
  "rows_body [] = Some []"
| "rows_body (r # rs) =
     (case put_row r of
        None \<Rightarrow> None
      | Some bs \<Rightarrow> (case rows_body rs of None \<Rightarrow> None | Some bs' \<Rightarrow> Some (bs @ bs')))"

section \<open>Lemmas\<close>

subsection \<open>Words\<close>

lemma uint_sint32: "uint (x::u32) = sint x mod 2 ^ 32"
  by (simp add: uint_sint take_bit_eq_mod)

lemma sint32_bounds: "- (2 ^ 31) \<le> sint (x::u32) \<and> sint x < 2 ^ 31"
  using sint_ge [of x] sint_lt [of x] by simp

lemma uint_sint32_nonneg: "0 \<le> sint (x::u32) \<Longrightarrow> uint x = sint x"
  using sint32_bounds [of x] by (simp add: uint_sint32)

lemma uint_sint32_neg: "sint (x::u32) < 0 \<Longrightarrow> uint x = sint x + 2 ^ 32"
proof -
  assume a: "sint x < 0"
  have "(sint x + 2 ^ 32) mod 2 ^ 32 = sint x + 2 ^ 32"
    using sint32_bounds [of x] a by (intro mod_pos_pos_trivial) auto
  then show ?thesis by (simp add: uint_sint32)
qed

lemma of_nat_u32_zero:
  assumes "(of_nat k :: u32) = 0" "k < 2 ^ 32"
  shows "k = 0"
proof -
  have "unat (of_nat k :: u32) = k" using assms(2) by (simp add: unat_of_nat)
  with assms(1) show ?thesis by simp
qed

lemmas nthreads_defs =
  pool_threads_init_nthreads_def POOL_THREADPOOL_SIZE_def MAX_THREADPOOL_SIZE_def

lemmas atoi_defs = atoi_def isspace_def isdigit_def

subsection \<open>The id generator\<close>




subsection \<open>The registries\<close>




















subsection \<open>The invariant of the pool\<close>

lemma pick_simps [simp]:
  "pick f [] = []"
  "pick f (e # h) = f e @ pick f h"
  "pick f (h @ h') = pick f h @ pick f h'"
  by (simp_all add: pick_def)

lemma submitted_pick: "submitted h = pick (\<lambda>e. case e of EvSubmit w \<Rightarrow> [w] | _ \<Rightarrow> []) h"
  by (simp add: submitted_def pick_def)

lemma submitted_simps [simp]:
  "submitted [] = []"
  "submitted (h @ h') = submitted h @ submitted h'"
  "submitted (EvSubmit w # h) = w # submitted h"
  "submitted (EvDispatch w # h) = submitted h"
  "submitted (EvWorkCb i w # h) = submitted h"
  "submitted (EvWorkDone i w # h) = submitted h"
  "submitted (EvBarFree w # h) = submitted h"
  "submitted (EvAfterWork w # h) = submitted h"
  by (simp_all add: submitted_def)

lemma sum_point:
  fixes f g :: "nat \<Rightarrow> nat"
  assumes "t < n" "\<And>i. i \<noteq> t \<Longrightarrow> g i = f i"
  shows "sum g {..<n} + f t = sum f {..<n} + g t"
proof -
  have fin: "finite {..<n}" and mem: "t \<in> {..<n}" using assms by auto
  have "sum g {..<n} = g t + sum g ({..<n} - {t})" by (rule sum.remove [OF fin mem])
  moreover have "sum f {..<n} = f t + sum f ({..<n} - {t})" by (rule sum.remove [OF fin mem])
  moreover have "sum g ({..<n} - {t}) = sum f ({..<n} - {t})"
    by (rule sum.cong) (auto simp: assms)
  ultimately show ?thesis by simp
qed

lemma pending_of_point:
  assumes "t < n"
  shows "pending_of n (inqs(t := q')) (at(t := pc')) +
           (length (filter is_ord (inqs t)) + worker_cnt (at t)) =
         pending_of n inqs at + (length (filter is_ord q') + worker_cnt pc')"
  unfolding pending_of_def
  using sum_point [OF assms, of
      "\<lambda>i. length (filter is_ord ((inqs(t := q')) i)) + worker_cnt ((at(t := pc')) i)"
      "\<lambda>i. length (filter is_ord (inqs i)) + worker_cnt (at i)"]
  by simp

lemma pending_of_inq:
  assumes "t < n"
  shows "pending_of n (inqs(t := inqs t @ [q])) at =
         pending_of n inqs at + (if is_ord q then 1 else 0)"
  using pending_of_point [OF assms, of inqs "inqs t @ [q]" at "at t"] by simp

lemma pending_of_at:
  assumes "t < n"
  shows "pending_of n inqs (at(t := pc')) + worker_cnt (at t) =
         pending_of n inqs at + worker_cnt pc'"
  using pending_of_point [OF assms, of inqs "inqs t" at pc'] by simp

lemma pending_of_pop:
  assumes "t < n" "inqs t = q # rest" "at t = W_TOP"
  shows "pending_of n (inqs(t := rest)) (at(t := W_WORK q)) = pending_of n inqs at"
  using pending_of_point [OF assms(1), of inqs rest at "W_WORK q"] assms(2,3)
  by (simp split: if_splits)

lemma held_of_point:
  assumes "t < n"
  shows "held_of n (inqs(t := q')) (at(t := pc')) + (length (inqs t) + length (running (at t))) =
         held_of n inqs at + (length q' + length (running pc'))"
  unfolding held_of_def
  using sum_point [OF assms, of
      "\<lambda>i. length ((inqs(t := q')) i) + length (running ((at(t := pc')) i))"
      "\<lambda>i. length (inqs i) + length (running (at i))"]
  by simp

lemma held_of_inq:
  assumes "t < n"
  shows "held_of n (inqs(t := inqs t @ [q])) at = Suc (held_of n inqs at)"
  using held_of_point [OF assms, of inqs "inqs t @ [q]" at "at t"] by simp

lemma held_of_at:
  assumes "t < n"
  shows "held_of n inqs (at(t := pc')) + length (running (at t)) =
         held_of n inqs at + length (running pc')"
  using held_of_point [OF assms, of inqs "inqs t" at pc'] by simp

lemma held_of_pop:
  assumes "t < n" "inqs t = q # rest" "at t = W_TOP"
  shows "held_of n (inqs(t := rest)) (at(t := W_WORK q)) = held_of n inqs at"
  using held_of_point [OF assms(1), of inqs rest at "W_WORK q"] assms(2,3) by simp

lemma pool_inv_init: "pool_inv (pool_threads_init_nthreads val) (pool_init val)"
  by (simp add: pool_inv_def pool_init_def pending_def pending_of_def held_def held_of_def)

lemma pool_inv_sm [simp]:
  "pool_inv n (pi\<lparr>planner_sm := st\<rparr>) = pool_inv n pi"
  "pool_inv n (pi\<lparr>planner_at := pa\<rparr>) = pool_inv n pi"
  "pool_inv n (pi\<lparr>exiting := ex\<rparr>) = pool_inv n pi"
  "pool_inv n (pi\<lparr>qos := qs\<rparr>) = pool_inv n pi"
  by (simp_all add: pool_inv_def pending_def held_def)

lemma sm_move_Inr: "sm_move pi st = Inr pi' \<Longrightarrow> pi' = pi\<lparr>planner_sm := st\<rparr>"
  by (auto simp: sm_move_def split: if_splits)

lemma pool_inv_sm_move: "pool_inv n pi \<Longrightarrow> sm_move pi st = Inr pi' \<Longrightarrow> pool_inv n pi'"
  by (auto dest: sm_move_Inr)

lemma pool_queue_work_Inr:
  assumes "pool_queue_work pi w cookie = Inr pi'"
  shows "pi' = (if type w = WT_UNORD
      then pi\<lparr>active_ws := active_ws pi + 1,
              unordered := unordered pi @ [w\<lparr>thread_id := cookie mod nthreads pi\<rparr>],
              hist := hist pi @ [EvSubmit (w\<lparr>thread_id := cookie mod nthreads pi\<rparr>)]\<rparr>
      else pi\<lparr>active_ws := (if type w = WT_BAR then active_ws pi else active_ws pi + 1),
              o_prev := type w,
              ordered := ordered pi @ [w\<lparr>thread_id := cookie mod nthreads pi\<rparr>],
              hist := hist pi @ [EvSubmit (w\<lparr>thread_id := cookie mod nthreads pi\<rparr>)]\<rparr>)"
  using assms
  by (auto simp: pool_queue_work_def pool_work_submit_def w_register_def push_def Let_def
      WT_UNORD_def WT_BAR_def mutex_free_def split: if_splits)

lemma pool_queue_work_nthreads:
  "pool_queue_work pi w cookie = Inr pi' \<Longrightarrow> nthreads pi \<noteq> 0"
  by (auto simp: pool_queue_work_def split: if_splits)

lemma unat_mod_less_divisor:
  fixes c n :: u32
  assumes "n \<noteq> 0"
  shows "unat (c mod n) < unat n"
proof -
  from assms have "0 < n" by (simp add: word_neq_0_conv)
  then have "c mod n < n" by (rule word_mod_less_divisor)
  then show ?thesis by (simp add: word_less_nat_alt)
qed

lemma pool_queue_work_inv:
  assumes "pool_inv n pi" "wid w = length (submitted (hist pi))"
    "pool_queue_work pi w cookie = Inr pi'"
  shows "pool_inv n pi'"
proof -
  from assms(1) have n: "nthreads pi = n" by (simp add: pool_inv_def)
  from unat_mod_less_divisor [OF pool_queue_work_nthreads [OF assms(3)], of cookie] n
  have t: "unat (cookie mod n) < unat n" by simp
  show ?thesis
    using assms(1,2) t unfolding pool_queue_work_Inr [OF assms(3)]
    by (auto simp: pool_inv_def pending_def held_def is_o_def WT_UNORD_def WT_BAR_def)
qed

lemma to_worker_Inr:
  "to_worker q pi = Inr pi' \<Longrightarrow>
   unat (thread_id q) < unat (nthreads pi) \<and>
   pi' = pi\<lparr>inq := (inq pi)(unat (thread_id q) := inq pi (unat (thread_id q)) @ [q]),
            hist := hist pi @ [EvDispatch q]\<rparr>"
  by (auto simp: to_worker_def push_def split: if_splits)

lemma is_ord_is_o: "is_ord w \<longleftrightarrow> is_o w \<and> type w \<noteq> WT_BAR"
  by (auto simp: is_o_def is_ord_def WT_UNORD_def WT_ORD1_def WT_BAR_def)

lemma is_ord_alt: "is_ord w \<longleftrightarrow> WT_BAR < type w"
  by (auto simp: is_ord_def WT_ORD1_def WT_BAR_def)

text \<open>Dispatch of the head of the unordered queue.\<close>

lemma inv_dispatch_u:
  assumes inv: "pool_inv n pi" and u: "unordered pi = q # rest"
    and t: "unat (thread_id q) < unat (nthreads pi)"
  shows "pool_inv n (pi\<lparr>unordered := rest,
           inq := (inq pi)(unat (thread_id q) := inq pi (unat (thread_id q)) @ [q]),
           hist := hist pi @ [EvDispatch q]\<rparr>)"
proof -
  from inv u have "q \<in> set (filter (\<lambda>w. \<not> is_o w) (submitted (hist pi)))"
    by (simp add: pool_inv_def)
  then have no: "\<not> is_o q" by simp
  then have nord: "\<not> is_ord q" and nbar: "type q \<noteq> WT_BAR"
    by (auto simp: is_o_def is_ord_def WT_UNORD_def WT_ORD1_def WT_BAR_def)
  show ?thesis
    using inv u t no nbar nord unfolding pool_inv_def pending_def held_def
    by (auto simp: pending_of_inq held_of_inq)
qed

text \<open>Dispatch of the head of the ordered queue, which is not a barrier.\<close>

lemma inv_dispatch_o:
  assumes inv: "pool_inv n pi" and o: "ordered pi = q # rest"
    and t: "unat (thread_id q) < unat (nthreads pi)" and nbar: "type q \<noteq> WT_BAR"
  shows "pool_inv n (pi\<lparr>ordered := rest,
           inq := (inq pi)(unat (thread_id q) := inq pi (unat (thread_id q)) @ [q]),
           hist := hist pi @ [EvDispatch q],
           in_flight := in_flight pi + 1\<rparr>)"
proof -
  from inv o have "q \<in> set (filter is_o (submitted (hist pi)))"
    by (simp add: pool_inv_def)
  then have io: "is_o q" by simp
  with nbar have iord: "is_ord q" by (simp add: is_ord_is_o)
  show ?thesis
    using inv o t io nbar iord unfolding pool_inv_def pending_def held_def
    by (auto simp: pending_of_inq held_of_inq)
qed

lemma inv_bar_free:
  assumes inv: "pool_inv n pi" and o: "ordered pi = q # rest" and bar: "type q = WT_BAR"
  shows "pool_inv n (pi\<lparr>ordered := rest, hist := hist pi @ [EvBarFree q]\<rparr>)"
  using inv o bar unfolding pool_inv_def pending_def held_def by (auto simp: )

lemma inv_worker_pop:
  assumes inv: "pool_inv n pi" and q: "inq pi t = q # rest" and top: "worker_at pi t = W_TOP"
    and t: "t < unat (nthreads pi)"
  shows "pool_inv n (pi\<lparr>inq := (inq pi)(t := rest),
           worker_at := (worker_at pi)(t := W_WORK q),
           hist := hist pi @ [EvWorkCb t q]\<rparr>)"
  using inv q top t unfolding pool_inv_def pending_def held_def
  by (auto simp: pending_of_pop held_of_pop)

lemma inv_worker_exit:
  assumes inv: "pool_inv n pi" and top: "worker_at pi t = W_TOP"
    and t: "t < unat (nthreads pi)"
  shows "pool_inv n (pi\<lparr>worker_at := (worker_at pi)(t := W_RET)\<rparr>)"
  using inv top t pending_of_at [OF t, of "inq pi" "worker_at pi" W_RET]
    held_of_at [OF t, of "inq pi" "worker_at pi" W_RET]
  unfolding pool_inv_def pending_def held_def
  by (auto simp: )

lemma inv_worker_work:
  assumes inv: "pool_inv n pi" and at: "worker_at pi t = W_WORK w"
    and t: "t < unat (nthreads pi)"
  shows "pool_inv n (pi\<lparr>outq := outq pi @ [w],
           worker_at := (worker_at pi)(t := W_POST (type w)),
           hist := hist pi @ [EvWorkDone t w]\<rparr>)"
proof -
  have "pending_of (unat (nthreads pi)) (inq pi) ((worker_at pi)(t := W_POST (type w))) =
        pending_of (unat (nthreads pi)) (inq pi) (worker_at pi)"
    using pending_of_at [OF t, of "inq pi" "worker_at pi" "W_POST (type w)"] at
    by (simp add: is_ord_alt)
  moreover have "Suc (held_of (unat (nthreads pi)) (inq pi)
        ((worker_at pi)(t := W_POST (type w)))) =
        held_of (unat (nthreads pi)) (inq pi) (worker_at pi)"
    using held_of_at [OF t, of "inq pi" "worker_at pi" "W_POST (type w)"] at by simp
  ultimately show ?thesis
    using inv at t unfolding pool_inv_def pending_def held_def
    by (auto simp: )
qed

lemma inv_worker_post_ord:
  assumes inv: "pool_inv n pi" and at: "worker_at pi t = W_POST wtype"
    and t: "t < unat (nthreads pi)" and ty: "WT_BAR < wtype"
  shows "pool_inv n (pi\<lparr>in_flight := in_flight pi - 1,
           worker_at := (worker_at pi)(t := W_TOP)\<rparr>)"
proof -
  have "pending_of (unat (nthreads pi)) (inq pi) ((worker_at pi)(t := W_TOP)) + 1 =
        pending_of (unat (nthreads pi)) (inq pi) (worker_at pi)"
    using pending_of_at [OF t, of "inq pi" "worker_at pi" W_TOP] at ty by simp
  then obtain k where "pending_of (unat (nthreads pi)) (inq pi) (worker_at pi) = Suc k"
    and "pending_of (unat (nthreads pi)) (inq pi) ((worker_at pi)(t := W_TOP)) = k"
    by (cases "pending_of (unat (nthreads pi)) (inq pi) (worker_at pi)") auto
  moreover have "held_of (unat (nthreads pi)) (inq pi) ((worker_at pi)(t := W_TOP)) =
        held_of (unat (nthreads pi)) (inq pi) (worker_at pi)"
    using held_of_at [OF t, of "inq pi" "worker_at pi" W_TOP] at by simp
  ultimately show ?thesis
    using inv at t unfolding pool_inv_def pending_def held_def
    by (auto simp: )
qed

lemma inv_worker_post_unord:
  assumes inv: "pool_inv n pi" and at: "worker_at pi t = W_POST wtype"
    and t: "t < unat (nthreads pi)" and ty: "\<not> WT_BAR < wtype"
  shows "pool_inv n (pi\<lparr>worker_at := (worker_at pi)(t := W_TOP)\<rparr>)"
  using inv at t ty pending_of_at [OF t, of "inq pi" "worker_at pi" W_TOP]
    held_of_at [OF t, of "inq pi" "worker_at pi" W_TOP]
  unfolding pool_inv_def pending_def held_def
  by (auto simp: )

lemma inv_work_done:
  assumes inv: "pool_inv n pi" and e: "doneq pi = []"
  shows "pool_inv n (pi\<lparr>doneq := outq pi, outq := []\<rparr>)"
  using inv e unfolding pool_inv_def pending_def held_def by (auto simp: )

lemma inv_queue_done:
  assumes inv: "pool_inv n pi" and e: "doneq pi = w # rest"
  shows "pool_inv n (pi\<lparr>doneq := rest, active_ws := active_ws pi - 1,
           hist := hist pi @ [EvAfterWork w]\<rparr>)"
  using inv e unfolding pool_inv_def pending_def held_def by (auto simp: )

lemma pool_inv_cong:
  assumes "nthreads a = nthreads b" "inq a = inq b" "worker_at a = worker_at b"
    "outq a = outq b" "doneq a = doneq b" "active_ws a = active_ws b"
    "ordered a = ordered b" "unordered a = unordered b" "in_flight a = in_flight b"
    "o_prev a = o_prev b" "hist a = hist b"
  shows "pool_inv n a = pool_inv n b"
  using assms by (simp add: pool_inv_def pending_def held_def)

lemma qos_pop_cases:
  assumes "qos_pop qs0 first second = Inr (q, qs, first', second')"
  shows "(first = q # first' \<and> second' = second) \<or> (second = q # second' \<and> first' = first)"
  using assms
  by (auto simp: qos_pop_def pop_def empty_def split: if_splits list.splits)

lemma drain_one_cases:
  assumes "drain_one pi = Inr pi'"
  shows "\<exists>q. same_frame pi pi' \<and> unat (thread_id q) < unat (nthreads pi) \<and>
     ((ordered pi = q # ordered pi' \<and> unordered pi' = unordered pi) \<or>
      (unordered pi = q # unordered pi' \<and> ordered pi' = ordered pi)) \<and>
     inq pi' = (inq pi)(unat (thread_id q) := inq pi (unat (thread_id q)) @ [q]) \<and>
     hist pi' = hist pi @ [EvDispatch q] \<and>
     in_flight pi' = (if WT_ORD1 \<le> type q then in_flight pi + 1 else in_flight pi)"
proof -
  from assms obtain q qs first' second' pi1
    where qp: "qos_pop (qos pi) (ordered pi) (unordered pi) = Inr (q, qs, first', second')"
      and tw: "to_worker q (pi\<lparr>qos := qs, ordered := first', unordered := second'\<rparr>) = Inr pi1"
      and e: "pi' = (if WT_ORD1 \<le> type q then pi1\<lparr>in_flight := in_flight pi1 + 1\<rparr> else pi1)"
    by (auto simp: drain_one_def split: sum.splits prod.splits)
  from to_worker_Inr [OF tw] e qos_pop_cases [OF qp] show ?thesis
    by (intro exI [of _ q]) (auto simp: same_frame_def)
qed

lemma drain_one_inv:
  assumes inv: "pool_inv n pi"
    and nb: "\<not> (\<not> empty (ordered pi) \<and> q_type (head (ordered pi)) = Some WT_BAR)"
    and d: "drain_one pi = Inr pi'"
  shows "pool_inv n pi'"
proof -
  from drain_one_cases [OF d] obtain q where fr: "same_frame pi pi'"
    and t: "unat (thread_id q) < unat (nthreads pi)"
    and c: "(ordered pi = q # ordered pi' \<and> unordered pi' = unordered pi) \<or>
      (unordered pi = q # unordered pi' \<and> ordered pi' = ordered pi)"
    and i: "inq pi' = (inq pi)(unat (thread_id q) := inq pi (unat (thread_id q)) @ [q])"
    and h: "hist pi' = hist pi @ [EvDispatch q]"
    and f: "in_flight pi' = (if WT_ORD1 \<le> type q then in_flight pi + 1 else in_flight pi)"
    by blast
  from c show ?thesis
  proof
    assume a: "ordered pi = q # ordered pi' \<and> unordered pi' = unordered pi"
    with nb have nbar: "type q \<noteq> WT_BAR"
      by (simp add: empty_def q_type_def head_def)
    from inv a have "q \<in> set (filter is_o (submitted (hist pi)))"
      by (simp add: pool_inv_def)
    with nbar have "is_ord q" by (simp add: is_ord_is_o)
    then have ord: "WT_ORD1 \<le> type q" by (simp add: is_ord_def)
    have "pool_inv n pi' = pool_inv n (pi\<lparr>ordered := ordered pi',
           inq := (inq pi)(unat (thread_id q) := inq pi (unat (thread_id q)) @ [q]),
           hist := hist pi @ [EvDispatch q],
           in_flight := in_flight pi + 1\<rparr>)"
      using fr a i h f ord by (intro pool_inv_cong) (simp_all add: same_frame_def)
    then show ?thesis using inv_dispatch_o [OF inv _ t nbar] a by simp
  next
    assume a: "unordered pi = q # unordered pi' \<and> ordered pi' = ordered pi"
    from inv a have "q \<in> set (filter (\<lambda>w. \<not> is_o w) (submitted (hist pi)))"
      by (simp add: pool_inv_def)
    then have "\<not> is_ord q" by (simp add: is_ord_is_o)
    then have ord: "\<not> WT_ORD1 \<le> type q" by (simp add: is_ord_def)
    have "pool_inv n pi' = pool_inv n (pi\<lparr>unordered := unordered pi',
           inq := (inq pi)(unat (thread_id q) := inq pi (unat (thread_id q)) @ [q]),
           hist := hist pi @ [EvDispatch q]\<rparr>)"
      using fr a i h f ord by (intro pool_inv_cong) (simp_all add: same_frame_def)
    then show ?thesis using inv_dispatch_u [OF inv _ t] a by simp
  qed
qed

lemma unord_one_Inr:
  assumes "unord_one pi = Inr pi'"
  obtains q rest where "unordered pi = q # rest"
      "unat (thread_id q) < unat (nthreads pi)"
      "pi' = pi\<lparr>unordered := rest,
               inq := (inq pi)(unat (thread_id q) := inq pi (unat (thread_id q)) @ [q]),
               hist := hist pi @ [EvDispatch q]\<rparr>"
  using assms
  by (auto simp: unord_one_def pop_def split: sum.splits list.splits dest!: to_worker_Inr)

lemma unord_one_inv:
  assumes inv: "pool_inv n pi" and d: "unord_one pi = Inr pi'"
  shows "pool_inv n pi'"
  using d
proof (cases rule: unord_one_Inr)
  case (1 q rest)
  then show ?thesis using inv_dispatch_u [OF inv 1(1,2)] by simp
qed

lemma draining_loop_inv:
  "pool_inv n pi \<Longrightarrow> draining_loop pi = Inr pi' \<Longrightarrow> pool_inv n pi'"
proof (induction pi rule: draining_loop.induct)
  case (1 pi)
  show ?case
  proof (cases "empty (ordered pi) \<and> empty (unordered pi)")
    case True
    with "1.prems" show ?thesis
      by (auto simp: draining_loop.simps [of pi] dest: pool_inv_sm_move)
  next
    case False
    with "1.prems"(2) obtain pi1 where m: "sm_move pi PS_DRAINING = Inr pi1"
      by (auto simp: draining_loop.simps [of pi] split: sum.splits)
    have inv1: "pool_inv n pi1" using pool_inv_sm_move [OF "1.prems"(1) m] .
    show ?thesis
    proof (cases "\<not> empty (ordered pi1) \<and> q_type (head (ordered pi1)) = Some WT_BAR")
      case True
      with False m "1.prems"(2) have "sm_move pi1 PS_BARRIER = Inr pi'"
        by (simp add: draining_loop.simps [of pi])
      then show ?thesis using inv1 by (rule pool_inv_sm_move [rotated])
    next
      case nb: False
      with False m "1.prems"(2) obtain pi2 where d: "drain_one pi1 = Inr pi2"
        and r: "draining_loop pi2 = Inr pi'"
        by (auto simp: draining_loop.simps [of pi] split: sum.splits)
      have "pool_inv n pi2" using drain_one_inv [OF inv1 nb d] .
      then show ?thesis using "1.IH" [OF False m nb d] r by simp
    qed
  qed
qed

lemma draining_unord_loop_inv:
  "pool_inv n pi \<Longrightarrow> draining_unord_loop pi = Inr pi' \<Longrightarrow> pool_inv n pi'"
proof (induction pi rule: draining_unord_loop.induct)
  case (1 pi)
  show ?case
  proof (cases "empty (unordered pi)")
    case True
    with "1.prems" show ?thesis
      by (auto simp: draining_unord_loop.simps [of pi] dest: pool_inv_sm_move)
  next
    case False
    with "1.prems"(2) obtain pi1 where d: "unord_one pi = Inr pi1"
      and r: "draining_unord_loop pi1 = Inr pi'"
      by (auto simp: draining_unord_loop.simps [of pi] split: sum.splits)
    have "pool_inv n pi1" using unord_one_inv [OF "1.prems"(1) d] .
    then show ?thesis using "1.IH" [OF False d] r by simp
  qed
qed

lemma planner_inv:
  assumes inv: "pool_inv n pi" and p: "planner pi = Inr pi'"
  shows "pool_inv n pi'"
proof (cases "planner_sm pi")
  case PS_NOTHING
  with p inv show ?thesis
    by (auto simp: planner_def split: if_splits dest: pool_inv_sm_move)
next
  case PS_DRAINING
  with p inv show ?thesis by (auto simp: planner_def dest: draining_loop_inv)
next
  case PS_BARRIER
  show ?thesis
  proof (cases "\<not> empty (unordered pi) \<or> in_flight pi \<noteq> 0")
    case True
    with p inv PS_BARRIER show ?thesis
      by (auto simp: planner_def split: if_splits dest: pool_inv_sm_move)
  next
    case False
    with p PS_BARRIER obtain q rest where o: "ordered pi = q # rest" and b: "type q = WT_BAR"
      and m: "sm_move (pi\<lparr>ordered := rest, hist := hist pi @ [EvBarFree q]\<rparr>) PS_DRAINING = Inr pi'"
      by (auto simp: planner_def pop_def split: if_splits sum.splits list.splits)
    from inv_bar_free [OF inv o b] m show ?thesis by (rule pool_inv_sm_move)
  qed
next
  case PS_DRAINING_UNORD
  with p inv show ?thesis by (auto simp: planner_def dest: draining_unord_loop_inv)
next
  case PS_EXITED
  with p inv show ?thesis by (auto simp: planner_def)
qed

lemma planner_wakeup_inv:
  assumes inv: "pool_inv n pi" and p: "planner_wakeup pi = Inr pi'"
  shows "pool_inv n pi'"
proof -
  have "pool_inv n (pi\<lparr>planner_at := P_RUN\<rparr>)" using inv by simp
  with p show ?thesis
    by (cases "planner_sm pi") (auto simp: planner_wakeup_def dest!: sm_move_Inr)
qed

lemma worker_inv:
  assumes inv: "pool_inv n pi" and p: "worker idx pi = Inr pi'"
  shows "pool_inv n pi'"
proof -
  from p have t: "idx < unat (nthreads pi)" by (auto simp: worker_def split: if_splits)
  show ?thesis
  proof (cases "worker_at pi idx")
    case W_TOP
    show ?thesis
    proof (cases "inq pi idx")
      case Nil
      with p W_TOP t have "pi' = pi\<lparr>worker_at := (worker_at pi)(idx := W_RET)\<rparr>"
        by (auto simp: worker_def worker_top_def empty_def split: if_splits)
      then show ?thesis using inv_worker_exit [OF inv W_TOP t] by simp
    next
      case (Cons q rest)
      with p W_TOP t have "pi' = pi\<lparr>inq := (inq pi)(idx := rest),
           worker_at := (worker_at pi)(idx := W_WORK q),
           hist := hist pi @ [EvWorkCb idx q]\<rparr>"
        by (auto simp: worker_def worker_top_def empty_def pop_def split: if_splits)
      then show ?thesis using inv_worker_pop [OF inv Cons W_TOP t] by simp
    qed
  next
    case (W_WORK w)
    with p t have "pi' = pi\<lparr>outq := outq pi @ [w],
           worker_at := (worker_at pi)(idx := W_POST (type w)),
           hist := hist pi @ [EvWorkDone idx w]\<rparr>"
      by (auto simp: worker_def worker_work_def push_def)
    then show ?thesis using inv_worker_work [OF inv W_WORK t] by simp
  next
    case (W_POST wtype)
    show ?thesis
    proof (cases "WT_BAR < wtype")
      case True
      with p W_POST t have "pi' = pi\<lparr>in_flight := in_flight pi - 1,
           worker_at := (worker_at pi)(idx := W_TOP)\<rparr>"
        by (auto simp: worker_def worker_post_def split: if_splits)
      then show ?thesis using inv_worker_post_ord [OF inv W_POST t True] by simp
    next
      case False
      with p W_POST t have "pi' = pi\<lparr>worker_at := (worker_at pi)(idx := W_TOP)\<rparr>"
        by (auto simp: worker_def worker_post_def split: if_splits)
      then show ?thesis using inv_worker_post_unord [OF inv W_POST t False] by simp
    qed
  next
    case W_RET
    with p t show ?thesis by (simp add: worker_def)
  qed
qed

lemma work_done_inv:
  assumes inv: "pool_inv n pi" and p: "work_done pi = Inr pi'"
  shows "pool_inv n pi'"
  using p inv_work_done [OF inv]
  by (auto simp: work_done_def empty_def split: if_splits)

lemma queue_done_inv:
  assumes inv: "pool_inv n pi" and p: "queue_done pi = Inr pi'"
  shows "pool_inv n pi'"
proof -
  from p obtain w rest where d: "doneq pi = w # rest"
    and e: "pi' = pi\<lparr>doneq := rest, active_ws := active_ws pi - 1,
           hist := hist pi @ [EvAfterWork w]\<rparr>"
    by (auto simp: queue_done_def empty_def pop_def w_unregister_def
        split: if_splits list.splits sum.splits)
  show ?thesis using inv_queue_done [OF inv d] e by simp
qed

lemma pool_cleanup_inv: "pool_inv n pi \<Longrightarrow> pool_inv n (pool_cleanup pi)"
  by (simp add: pool_cleanup_def)

lemma step_inv:
  assumes inv: "pool_inv n pi" and s: "step a pi = Inr pi'"
  shows "pool_inv n pi'"
proof (cases a)
  case (A_queue_work wtype cookie)
  with s inv show ?thesis
    by (auto intro: pool_queue_work_inv [where w = "new_work pi wtype"] simp: new_work_def)
next
  case A_work_done
  with s inv show ?thesis by (auto dest: work_done_inv)
next
  case A_queue_done
  with s inv show ?thesis by (auto dest: queue_done_inv)
next
  case A_cleanup
  with s inv show ?thesis by (auto dest: pool_cleanup_inv)
next
  case A_planner
  with s inv show ?thesis by (auto split: if_splits dest: planner_inv)
next
  case A_planner_wakeup
  with s inv show ?thesis by (auto split: if_splits dest: planner_wakeup_inv)
next
  case (A_worker idx)
  with s inv show ?thesis by (auto dest: worker_inv)
qed

lemma reachable_inv: "reachable val pi \<Longrightarrow> pool_inv (pool_threads_init_nthreads val) pi"
  by (induction rule: reachable.induct) (auto intro: pool_inv_init step_inv)

lemma set_submitted: "w \<in> set (submitted h) \<longleftrightarrow> EvSubmit w \<in> set h"
  by (induction h) (auto simp: submitted_def split: event.splits)

lemma set_taken_o:
  "w \<in> set (pick ev_taken_o h) \<longleftrightarrow> (EvDispatch w \<in> set h \<and> is_o w) \<or> EvBarFree w \<in> set h"
proof (induction h)
  case Nil
  show ?case by simp
next
  case (Cons e h)
  then show ?case by (cases e) auto
qed

lemma set_taken_u:
  "w \<in> set (pick ev_taken_u h) \<longleftrightarrow> EvDispatch w \<in> set h \<and> \<not> is_o w"
proof (induction h)
  case Nil
  show ?case by simp
next
  case (Cons e h)
  then show ?case by (cases e) auto
qed

lemma set_sent_to:
  "w \<in> set (pick (ev_sent_to t) h) \<longleftrightarrow> EvDispatch w \<in> set h \<and> unat (thread_id w) = t"
proof (induction h)
  case Nil
  show ?case by simp
next
  case (Cons e h)
  then show ?case by (cases e) auto
qed

lemma set_started_on:
  "w \<in> set (pick (ev_started_on t) h) \<longleftrightarrow> EvWorkCb t w \<in> set h"
proof (induction h)
  case Nil
  show ?case by simp
next
  case (Cons e h)
  then show ?case by (cases e) auto
qed

lemma set_finished_on:
  "w \<in> set (pick (ev_finished_on t) h) \<longleftrightarrow> EvWorkDone t w \<in> set h"
proof (induction h)
  case Nil
  show ?case by simp
next
  case (Cons e h)
  then show ?case by (cases e) auto
qed



lemma sorted_wid_filter:
  assumes "map wid xs = [0..<length xs]"
  shows "sorted_wrt (\<lambda>a b. wid a < wid b) (filter P xs)"
proof -
  have "sorted_wrt (<) (map wid xs)" by (simp add: assms)
  then have "sorted_wrt (\<lambda>a b. wid a < wid b) xs" by (simp add: sorted_wrt_map)
  then show ?thesis by (rule sorted_wrt_filter)
qed

lemma pool_inv_sorted_o:
  assumes "pool_inv n pi"
  shows "sorted_wrt (\<lambda>a b. wid a < wid b) (pick ev_taken_o (hist pi) @ ordered pi)"
proof -
  from assms have l1: "map wid (submitted (hist pi)) = [0..<length (submitted (hist pi))]"
    and l2: "filter is_o (submitted (hist pi)) = pick ev_taken_o (hist pi) @ ordered pi"
    by (simp_all add: pool_inv_def)
  from sorted_wid_filter [OF l1, of is_o] l2 show ?thesis by simp
qed

lemma pending_of_zero:
  assumes "pending_of n inqs at = 0" "t < n"
  shows "filter is_ord (inqs t) = [] \<and> worker_cnt (at t) = 0"
  using assms by (auto simp: pending_of_def)

lemma pool_inv_pending_zero:
  assumes inv: "pool_inv n pi" and z: "in_flight pi = 0"
    and b: "length (submitted (hist pi)) < 2 ^ 32"
  shows "pending pi = 0"
proof -
  from inv have "in_flight pi = of_nat (pending pi)"
    and "pending pi \<le> length (submitted (hist pi))"
    by (simp_all add: pool_inv_def)
  with z b show ?thesis by (intro of_nat_u32_zero) auto
qed

lemma pool_inv_started_dispatched:
  assumes inv: "pool_inv n pi" and s: "EvWorkCb t w \<in> set (hist pi)"
  shows "EvDispatch w \<in> set (hist pi) \<and> unat (thread_id w) = t"
proof -
  from inv have "pick (ev_sent_to t) (hist pi) = pick (ev_started_on t) (hist pi) @ inq pi t"
    by (simp add: pool_inv_def)
  moreover from s have "w \<in> set (pick (ev_started_on t) (hist pi))"
    by (simp add: set_started_on)
  ultimately have "w \<in> set (pick (ev_sent_to t) (hist pi))" by simp
  then show ?thesis by (simp add: set_sent_to)
qed

lemma grows_refl: "hist pi' = hist pi \<Longrightarrow> grows pi pi'"
  by (simp add: grows_def)

lemma grows_one:
  "hist pi' = hist pi @ [e] \<Longrightarrow> (\<And>B. e \<noteq> EvBarFree B) \<Longrightarrow> (\<And>t w. e \<noteq> EvWorkCb t w) \<Longrightarrow>
   grows pi pi'"
  by (auto simp: grows_def)

lemma grows_trans: "grows a b \<Longrightarrow> grows b c \<Longrightarrow> grows a c"
  by (auto simp: grows_def)

lemma sm_move_grows: "sm_move pi st = Inr pi' \<Longrightarrow> grows pi pi'"
  by (auto dest!: sm_move_Inr intro: grows_refl)

lemma drain_one_grows: "drain_one pi = Inr pi' \<Longrightarrow> grows pi pi'"
  by (auto dest!: drain_one_cases intro: grows_one)

lemma unord_one_grows: "unord_one pi = Inr pi' \<Longrightarrow> grows pi pi'"
  by (erule unord_one_Inr) (auto intro: grows_one)

lemma draining_loop_grows: "draining_loop pi = Inr pi' \<Longrightarrow> grows pi pi'"
proof (induction pi rule: draining_loop.induct)
  case (1 pi)
  show ?case
  proof (cases "empty (ordered pi) \<and> empty (unordered pi)")
    case True
    with "1.prems" show ?thesis
      by (auto simp: draining_loop.simps [of pi] dest: sm_move_grows)
  next
    case False
    with "1.prems" obtain pi1 where m: "sm_move pi PS_DRAINING = Inr pi1"
      by (auto simp: draining_loop.simps [of pi] split: sum.splits)
    show ?thesis
    proof (cases "\<not> empty (ordered pi1) \<and> q_type (head (ordered pi1)) = Some WT_BAR")
      case True
      with False m "1.prems" have "sm_move pi1 PS_BARRIER = Inr pi'"
        by (simp add: draining_loop.simps [of pi])
      with m show ?thesis by (blast intro: grows_trans sm_move_grows)
    next
      case nb: False
      with False m "1.prems" obtain pi2 where d: "drain_one pi1 = Inr pi2"
        and r: "draining_loop pi2 = Inr pi'"
        by (auto simp: draining_loop.simps [of pi] split: sum.splits)
      from "1.IH" [OF False m nb d r] m d show ?thesis
        by (blast intro: grows_trans sm_move_grows drain_one_grows)
    qed
  qed
qed

lemma draining_unord_loop_grows: "draining_unord_loop pi = Inr pi' \<Longrightarrow> grows pi pi'"
proof (induction pi rule: draining_unord_loop.induct)
  case (1 pi)
  show ?case
  proof (cases "empty (unordered pi)")
    case True
    with "1.prems" show ?thesis
      by (auto simp: draining_unord_loop.simps [of pi] dest: sm_move_grows)
  next
    case False
    with "1.prems" obtain pi1 where d: "unord_one pi = Inr pi1"
      and r: "draining_unord_loop pi1 = Inr pi'"
      by (auto simp: draining_unord_loop.simps [of pi] split: sum.splits)
    from "1.IH" [OF False d r] d show ?thesis
      by (blast intro: grows_trans unord_one_grows)
  qed
qed

text \<open>The planner states the two loops can end in.\<close>

lemma draining_loop_sm:
  "draining_loop pi = Inr pi' \<Longrightarrow> planner_sm pi' = PS_NOTHING \<or> planner_sm pi' = PS_BARRIER"
proof (induction pi rule: draining_loop.induct)
  case (1 pi)
  show ?case
  proof (cases "empty (ordered pi) \<and> empty (unordered pi)")
    case True
    with "1.prems" show ?thesis
      by (auto simp: draining_loop.simps [of pi] dest: sm_move_Inr)
  next
    case False
    with "1.prems" obtain pi1 where m: "sm_move pi PS_DRAINING = Inr pi1"
      by (auto simp: draining_loop.simps [of pi] split: sum.splits)
    show ?thesis
    proof (cases "\<not> empty (ordered pi1) \<and> q_type (head (ordered pi1)) = Some WT_BAR")
      case True
      with False m "1.prems" have "sm_move pi1 PS_BARRIER = Inr pi'"
        by (simp add: draining_loop.simps [of pi])
      then show ?thesis by (auto dest: sm_move_Inr)
    next
      case nb: False
      with False m "1.prems" obtain pi2 where d: "drain_one pi1 = Inr pi2"
        and r: "draining_loop pi2 = Inr pi'"
        by (auto simp: draining_loop.simps [of pi] split: sum.splits)
      from "1.IH" [OF False m nb d r] show ?thesis .
    qed
  qed
qed

lemma draining_unord_loop_sm:
  "draining_unord_loop pi = Inr pi' \<Longrightarrow> planner_sm pi' = PS_BARRIER"
proof (induction pi rule: draining_unord_loop.induct)
  case (1 pi)
  show ?case
  proof (cases "empty (unordered pi)")
    case True
    with "1.prems" show ?thesis
      by (auto simp: draining_unord_loop.simps [of pi] dest: sm_move_Inr)
  next
    case False
    with "1.prems" obtain pi1 where d: "unord_one pi = Inr pi1"
      and r: "draining_unord_loop pi1 = Inr pi'"
      by (auto simp: draining_unord_loop.simps [of pi] split: sum.splits)
    from "1.IH" [OF False d r] show ?thesis .
  qed
qed

lemma planner_cases:
  assumes p: "planner pi = Inr pi'"
  shows "(grows pi pi' \<and> \<not> (planner_sm pi = PS_BARRIER \<and> planner_sm pi' = PS_DRAINING)) \<or>
         (\<exists>B. bar_freed pi pi' B)"
proof (cases "planner_sm pi")
  case PS_NOTHING
  with p show ?thesis
    by (auto simp: planner_def split: if_splits dest!: sm_move_Inr intro: grows_refl)
next
  case PS_DRAINING
  with p show ?thesis by (auto simp: planner_def dest: draining_loop_grows)
next
  case PS_BARRIER
  show ?thesis
  proof (cases "\<not> empty (unordered pi) \<or> in_flight pi \<noteq> 0")
    case True
    with p PS_BARRIER show ?thesis
      by (auto simp: planner_def split: if_splits dest!: sm_move_Inr intro: grows_refl)
  next
    case False
    with p PS_BARRIER obtain q rest where o: "ordered pi = q # rest" and b: "type q = WT_BAR"
      and m: "sm_move (pi\<lparr>ordered := rest, hist := hist pi @ [EvBarFree q]\<rparr>) PS_DRAINING = Inr pi'"
      by (auto simp: planner_def pop_def split: if_splits sum.splits list.splits)
    from sm_move_Inr [OF m] o b False PS_BARRIER have "bar_freed pi pi' q"
      by (simp add: bar_freed_def empty_def)
    then show ?thesis by blast
  qed
next
  case PS_DRAINING_UNORD
  with p show ?thesis by (auto simp: planner_def dest: draining_unord_loop_grows)
next
  case PS_EXITED
  with p show ?thesis by (auto simp: planner_def intro: grows_refl)
qed

lemma planner_wakeup_grows:
  assumes p: "planner_wakeup pi = Inr pi'"
  shows "grows pi pi' \<and> \<not> (planner_sm pi = PS_BARRIER \<and> planner_sm pi' = PS_DRAINING)"
  using p by (cases "planner_sm pi")
    (auto simp: planner_wakeup_def dest!: sm_move_Inr intro: grows_refl)

lemma worker_grows:
  assumes p: "worker idx pi = Inr pi'"
  shows "(grows pi pi' \<and> planner_sm pi' = planner_sm pi) \<or> (\<exists>w. cb_started pi pi' idx w)"
  using p
  by (cases "worker_at pi idx")
    (auto simp: worker_def worker_top_def worker_work_def worker_post_def pop_def cb_started_def
      split: if_splits list.splits intro: grows_refl grows_one)

lemma pool_queue_work_grows:
  assumes p: "pool_queue_work pi w cookie = Inr pi'"
  shows "grows pi pi' \<and> planner_sm pi' = planner_sm pi"
  unfolding pool_queue_work_Inr [OF p] by (auto intro: grows_one)

lemma work_done_grows:
  assumes p: "work_done pi = Inr pi'"
  shows "grows pi pi' \<and> planner_sm pi' = planner_sm pi"
  using p by (auto simp: work_done_def split: if_splits intro: grows_refl)

lemma queue_done_grows:
  assumes p: "queue_done pi = Inr pi'"
  shows "grows pi pi' \<and> planner_sm pi' = planner_sm pi"
  using p
  by (auto simp: queue_done_def pop_def w_unregister_def
      split: if_splits list.splits sum.splits intro: grows_one)

lemma step_cases:
  assumes s: "step a pi = Inr pi'"
  shows "(grows pi pi' \<and> \<not> (planner_sm pi = PS_BARRIER \<and> planner_sm pi' = PS_DRAINING)) \<or>
         (a = A_planner \<and> (\<exists>B. bar_freed pi pi' B)) \<or>
         (\<exists>t w. a = A_worker t \<and> cb_started pi pi' t w)"
proof (cases a)
  case (A_queue_work wtype cookie)
  with s show ?thesis by (auto dest: pool_queue_work_grows)
next
  case A_work_done
  with s show ?thesis by (auto dest: work_done_grows)
next
  case A_queue_done
  with s show ?thesis by (auto dest: queue_done_grows)
next
  case A_cleanup
  with s show ?thesis by (auto simp: pool_cleanup_def intro: grows_refl split: if_splits)
next
  case A_planner
  with s show ?thesis using planner_cases [of pi pi'] by (auto split: if_splits)
next
  case A_planner_wakeup
  with s show ?thesis using planner_wakeup_grows [of pi pi'] by (auto split: if_splits)
next
  case (A_worker idx)
  with s show ?thesis using worker_grows [of idx pi pi'] by auto
qed

text \<open>Splitting a history at a barrier release.\<close>

lemma split_at_absent:
  assumes "xs @ ys = pre @ e # post" "e \<notin> set ys"
  shows "\<exists>post'. xs = pre @ e # post'"
proof -
  from assms(1) obtain us where
    "(xs = pre @ us \<and> us @ ys = e # post) \<or> (xs @ us = pre \<and> ys = us @ e # post)"
    by (auto simp: append_eq_append_conv2)
  then show ?thesis
  proof
    assume a: "xs = pre @ us \<and> us @ ys = e # post"
    show ?thesis
    proof (cases us)
      case Nil
      with a assms(2) show ?thesis by auto
    next
      case (Cons u us')
      with a show ?thesis by auto
    qed
  next
    assume "xs @ us = pre \<and> ys = us @ e # post"
    with assms(2) show ?thesis by auto
  qed
qed

lemma split_at_last:
  assumes "xs @ [e'] = pre @ e # post"
  shows "(pre = xs \<and> e = e' \<and> post = []) \<or> (\<exists>post'. xs = pre @ e # post')"
proof (cases post rule: rev_cases)
  case Nil
  with assms show ?thesis by auto
next
  case (snoc post' x)
  with assms have "xs @ [e'] = (pre @ e # post') @ [x]" by simp
  then have "xs = pre @ e # post'" by (simp only: append1_eq_conv)
  then show ?thesis by blast
qed

lemma step_submitted_mono:
  assumes s: "step a pi = Inr pi'"
  shows "length (submitted (hist pi)) \<le> length (submitted (hist pi'))"
  using step_cases [OF s] by (auto simp: grows_def bar_freed_def cb_started_def)

lemma reachable_before_cb:
  "reachable val pi \<Longrightarrow> hist pi = pre @ EvWorkCb t w # post \<Longrightarrow>
   \<exists>pi0. reachable val pi0 \<and> hist pi0 = pre \<and> worker_at pi0 t = W_TOP"
proof (induction arbitrary: post rule: reachable.induct)
  case reach_init
  then show ?case by (simp add: pool_init_def)
next
  case (reach_step pi a pi')
  from step_cases [OF reach_step(2)] consider
    (quiet) "grows pi pi'" | (free) B' where "bar_freed pi pi' B'"
    | (cb) t' w' where "cb_started pi pi' t' w'"
    by blast
  then show ?case
  proof cases
    case quiet
    then obtain evs where e: "hist pi' = hist pi @ evs" and n: "EvWorkCb t w \<notin> set evs"
      by (auto simp: grows_def)
    from e reach_step(4) have "hist pi @ evs = pre @ EvWorkCb t w # post" by simp
    from split_at_absent [OF this n] reach_step(3) show ?thesis by blast
  next
    case free
    then have e: "hist pi' = hist pi @ [EvBarFree B']" by (simp add: bar_freed_def)
    with reach_step(4) have "hist pi @ [EvBarFree B'] = pre @ EvWorkCb t w # post" by simp
    from split_at_absent [OF this] reach_step(3) show ?thesis by auto
  next
    case cb
    then have e: "hist pi' = hist pi @ [EvWorkCb t' w']" and top: "worker_at pi t' = W_TOP"
      by (simp_all add: cb_started_def)
    from e reach_step(4) have "hist pi @ [EvWorkCb t' w'] = pre @ EvWorkCb t w # post" by simp
    from split_at_last [OF this] show ?thesis
    proof
      assume "pre = hist pi \<and> EvWorkCb t w = EvWorkCb t' w' \<and> post = []"
      with top reach_step(1) show ?thesis by auto
    next
      assume "\<exists>post'. hist pi = pre @ EvWorkCb t w # post'"
      with reach_step(3) show ?thesis by blast
    qed
  qed
qed

lemma started_eq_finished:
  assumes "pool_inv n pi" "worker_at pi t = W_TOP"
  shows "pick (ev_started_on t) (hist pi) = pick (ev_finished_on t) (hist pi)"
  using assms by (simp add: pool_inv_def)

text \<open>On one worker, a callback has returned before the next one is called.\<close>

lemma callbacks_do_not_overlap:
  assumes r: "reachable val pi"
    and h: "hist pi = h1 @ EvWorkCb t w1 # h2 @ EvWorkCb t w2 # h3"
  shows "EvWorkDone t w1 \<in> set h2"
proof -
  from reachable_before_cb [OF r h] obtain pi1 where r1: "reachable val pi1"
    and h1: "hist pi1 = h1" and t1: "worker_at pi1 t = W_TOP" by blast
  from h have "hist pi = (h1 @ EvWorkCb t w1 # h2) @ EvWorkCb t w2 # h3" by simp
  from reachable_before_cb [OF r this] obtain pi2 where r2: "reachable val pi2"
    and h2: "hist pi2 = h1 @ EvWorkCb t w1 # h2" and t2: "worker_at pi2 t = W_TOP" by blast
  from started_eq_finished [OF reachable_inv [OF r1] t1] h1
  have e1: "pick (ev_started_on t) h1 = pick (ev_finished_on t) h1" by simp
  from started_eq_finished [OF reachable_inv [OF r2] t2] h2
  have "pick (ev_started_on t) (h1 @ EvWorkCb t w1 # h2) =
        pick (ev_finished_on t) (h1 @ EvWorkCb t w1 # h2)" by simp
  with e1 have "w1 # pick (ev_started_on t) h2 = pick (ev_finished_on t) h2" by simp
  then have "w1 \<in> set (pick (ev_finished_on t) h2)" by (metis list.set_intros(1))
  then show ?thesis by (simp add: set_finished_on)
qed

lemma sent_ord_taken:
  assumes "\<And>w. EvBarFree w \<in> set h \<Longrightarrow> \<not> is_ord w"
  shows "filter is_ord (pick (ev_sent_to t) h) =
         filter (\<lambda>w. is_ord w \<and> unat (thread_id w) = t) (pick ev_taken_o h)"
  using assms
proof (induction h)
  case Nil
  show ?case by simp
next
  case (Cons e h)
  then show ?case by (cases e) (auto simp: is_ord_is_o)
qed

lemma started_sorted:
  assumes inv: "pool_inv n pi"
  shows "sorted_wrt (\<lambda>a b. wid a < wid b) (filter is_ord (pick (ev_started_on t) (hist pi)))"
proof -
  have nb: "\<not> is_ord w" if "EvBarFree w \<in> set (hist pi)" for w
    using inv that by (auto simp: pool_inv_def is_ord_is_o)
  have "sorted_wrt (\<lambda>a b. wid a < wid b) (pick ev_taken_o (hist pi))"
    using pool_inv_sorted_o [OF inv] by (simp add: sorted_wrt_append)
  then have "sorted_wrt (\<lambda>a b. wid a < wid b)
      (filter (\<lambda>w. is_ord w \<and> unat (thread_id w) = t) (pick ev_taken_o (hist pi)))"
    by (rule sorted_wrt_filter)
  then have "sorted_wrt (\<lambda>a b. wid a < wid b) (filter is_ord (pick (ev_sent_to t) (hist pi)))"
    by (simp add: sent_ord_taken [OF nb])
  moreover from inv
  have "pick (ev_sent_to t) (hist pi) = pick (ev_started_on t) (hist pi) @ inq pi t"
    by (simp add: pool_inv_def)
  ultimately show ?thesis by (simp add: sorted_wrt_append)
qed

lemma callbacks_in_submission_order:
  assumes r: "reachable val pi"
    and h: "hist pi = h1 @ EvWorkCb t w1 # h2 @ EvWorkCb t w2 # h3"
    and o: "is_ord w1" "is_ord w2"
  shows "wid w1 < wid w2"
  using started_sorted [OF reachable_inv [OF r], of t] o
  by (simp add: h sorted_wrt_append)

lemma dispatched_submitted:
  assumes inv: "pool_inv n pi" and d: "EvDispatch w \<in> set (hist pi)"
  shows "EvSubmit w \<in> set (hist pi)"
proof (cases "is_o w")
  case True
  with d have "w \<in> set (pick ev_taken_o (hist pi))" by (simp add: set_taken_o)
  moreover from inv
  have "filter is_o (submitted (hist pi)) = pick ev_taken_o (hist pi) @ ordered pi"
    by (simp add: pool_inv_def)
  ultimately have "w \<in> set (filter is_o (submitted (hist pi)))" by simp
  then show ?thesis by (simp add: set_submitted)
next
  case False
  with d have "w \<in> set (pick ev_taken_u (hist pi))" by (simp add: set_taken_u)
  moreover from inv
  have "filter (\<lambda>w. \<not> is_o w) (submitted (hist pi)) = pick ev_taken_u (hist pi) @ unordered pi"
    by (simp add: pool_inv_def)
  ultimately have "w \<in> set (filter (\<lambda>w. \<not> is_o w) (submitted (hist pi)))" by simp
  then show ?thesis by (simp add: set_submitted)
qed

lemma started_on_its_worker:
  assumes r: "reachable val pi" and s: "EvWorkCb t w \<in> set (hist pi)"
  shows "t = unat (thread_id w) \<and> t < unat (nthreads pi) \<and> EvDispatch w \<in> set (hist pi) \<and>
         EvSubmit w \<in> set (hist pi)"
proof -
  note inv = reachable_inv [OF r]
  from pool_inv_started_dispatched [OF inv s]
  have d: "EvDispatch w \<in> set (hist pi)" and t: "unat (thread_id w) = t" by auto
  from inv d have "unat (thread_id w) < unat (nthreads pi)" by (simp add: pool_inv_def)
  with d t dispatched_submitted [OF inv d] show ?thesis by simp
qed

lemma run_reachable:
  "reachable val pi \<Longrightarrow> run as pi = Inr pi' \<Longrightarrow> reachable val pi'"
proof (induction as arbitrary: pi)
  case Nil
  then show ?case by simp
next
  case (Cons a as)
  from Cons.prems(2) obtain pi1 where s: "step a pi = Inr pi1" and r: "run as pi1 = Inr pi'"
    by (auto split: sum.splits)
  from Cons.IH [OF reach_step [OF Cons.prems(1) s] r] show ?case .
qed

lemma run_from_init:
  assumes "\<not> isl (run as (pool_init val))"
  shows "reachable val (projr (run as (pool_init val)))"
proof -
  from assms have "run as (pool_init val) = Inr (projr (run as (pool_init val)))" by simp
  from run_reachable [OF reach_init this] show ?thesis .
qed







lemma bar_free_step:
  assumes s: "step a pi = Inr pi'" and n: "EvBarFree w \<in> set (hist pi')"
    "EvBarFree w \<notin> set (hist pi)"
  shows "a = A_planner \<and> bar_freed pi pi' w"
proof -
  from step_cases [OF s] consider
    (quiet) "grows pi pi'" | (free) B' where "a = A_planner" "bar_freed pi pi' B'"
    | (cb) t w' where "cb_started pi pi' t w'"
    by blast
  then show ?thesis
  proof cases
    case quiet
    with n show ?thesis by (auto simp: grows_def)
  next
    case free
    with n show ?thesis by (auto simp: bar_freed_def)
  next
    case cb
    with n show ?thesis by (auto simp: cb_started_def)
  qed
qed

lemma barrier_to_draining:
  assumes s: "step a pi = Inr pi'" and b: "planner_sm pi = PS_BARRIER"
    and d: "planner_sm pi' = PS_DRAINING"
  shows "a = A_planner \<and> in_flight pi = 0 \<and> unordered pi = []"
  using step_cases [OF s] b d by (auto simp: bar_freed_def cb_started_def)

subsection \<open>The assertions of the pool\<close>

lemma sm_move_planner_ok: "sm_move pi st = Inr pi' \<Longrightarrow> planner_ok pi \<Longrightarrow> planner_ok pi'"
  by (auto simp: sm_move_def planner_ok_def planner_states_allowed_def planner_invariant_def
      split: if_splits planner_states.splits)

lemma sm_move_sm: "sm_move pi st = Inr pi' \<Longrightarrow> planner_sm pi' = st"
  by (auto dest: sm_move_Inr)

lemma drain_one_sm: "drain_one pi = Inr pi' \<Longrightarrow> planner_sm pi' = planner_sm pi"
  using drain_one_cases [of pi pi'] by (auto simp: same_frame_def)

lemma draining_loop_planner_ok: "draining_loop pi = Inr pi' \<Longrightarrow> planner_ok pi'"
proof (induction pi rule: draining_loop.induct)
  case (1 pi)
  show ?case
  proof (cases "empty (ordered pi) \<and> empty (unordered pi)")
    case True
    with "1.prems" have "sm_move pi PS_NOTHING = Inr pi'"
      by (simp add: draining_loop.simps [of pi])
    from sm_move_sm [OF this] show ?thesis by (simp add: planner_ok_def)
  next
    case False
    with "1.prems" obtain pi1 where m: "sm_move pi PS_DRAINING = Inr pi1"
      by (auto simp: draining_loop.simps [of pi] split: sum.splits)
    have ok1: "planner_ok pi1" using sm_move_sm [OF m] by (simp add: planner_ok_def)
    show ?thesis
    proof (cases "\<not> empty (ordered pi1) \<and> q_type (head (ordered pi1)) = Some WT_BAR")
      case True
      with False m "1.prems" have b: "sm_move pi1 PS_BARRIER = Inr pi'"
        by (simp add: draining_loop.simps [of pi])
      from sm_move_Inr [OF b] True show ?thesis by (simp add: planner_ok_def)
    next
      case nb: False
      with False m "1.prems" obtain pi2 where d: "drain_one pi1 = Inr pi2"
        and r: "draining_loop pi2 = Inr pi'"
        by (auto simp: draining_loop.simps [of pi] split: sum.splits)
      show ?thesis using "1.IH" [OF False m nb d] r by simp
    qed
  qed
qed

lemma draining_unord_loop_planner_ok:
  "planner_ok pi \<Longrightarrow> draining_unord_loop pi = Inr pi' \<Longrightarrow> planner_ok pi'"
proof (induction pi rule: draining_unord_loop.induct)
  case (1 pi)
  show ?case
  proof (cases "empty (unordered pi)")
    case True
    with "1.prems" show ?thesis
      by (auto simp: draining_unord_loop.simps [of pi] dest: sm_move_planner_ok)
  next
    case False
    with "1.prems"(2) obtain pi1 where d: "unord_one pi = Inr pi1"
      and r: "draining_unord_loop pi1 = Inr pi'"
      by (auto simp: draining_unord_loop.simps [of pi] split: sum.splits)
    have "planner_ok pi1"
    proof -
      from d obtain q rest where
        "pi1 = pi\<lparr>unordered := rest,
               inq := (inq pi)(unat (thread_id q) := inq pi (unat (thread_id q)) @ [q]),
               hist := hist pi @ [EvDispatch q]\<rparr>"
        by (rule unord_one_Inr)
      with "1.prems"(1) show ?thesis by (simp add: planner_ok_def)
    qed
    then show ?thesis using "1.IH" [OF False d] r by simp
  qed
qed

lemma planner_planner_ok:
  assumes ok: "planner_ok pi" and p: "planner pi = Inr pi'"
  shows "planner_ok pi'"
proof (cases "planner_sm pi")
  case PS_NOTHING
  with p ok show ?thesis
    by (auto simp: planner_def planner_ok_def split: if_splits dest!: sm_move_Inr)
next
  case PS_DRAINING
  with p show ?thesis by (auto simp: planner_def dest: draining_loop_planner_ok)
next
  case PS_BARRIER
  with p ok show ?thesis
    by (auto simp: planner_def planner_ok_def split: if_splits sum.splits dest!: sm_move_Inr)
next
  case PS_DRAINING_UNORD
  with p ok show ?thesis by (auto simp: planner_def dest: draining_unord_loop_planner_ok)
next
  case PS_EXITED
  with p ok show ?thesis by (auto simp: planner_def planner_ok_def)
qed

lemma planner_wakeup_planner_ok:
  assumes ok: "planner_ok pi" and p: "planner_wakeup pi = Inr pi'"
  shows "planner_ok pi'"
  using assms
  by (cases "planner_sm pi") (auto simp: planner_wakeup_def planner_ok_def dest!: sm_move_Inr)

lemma worker_planner_ok:
  assumes ok: "planner_ok pi" and p: "worker idx pi = Inr pi'"
  shows "planner_ok pi'"
  using assms
  by (auto simp: worker_def worker_top_def worker_work_def worker_post_def planner_ok_def pop_def
      split: if_splits worker_pc.splits sum.splits list.splits)

lemma pool_queue_work_planner_ok:
  assumes ok: "planner_ok pi" and p: "pool_queue_work pi w cookie = Inr pi'"
  shows "planner_ok pi'"
  using ok unfolding pool_queue_work_Inr [OF p]
  by (auto simp: planner_ok_def head_def q_type_def split: list.splits)

lemma step_planner_ok:
  assumes "planner_ok pi" "step a pi = Inr pi'"
  shows "planner_ok pi'"
proof (cases a)
  case (A_queue_work wtype cookie)
  with assms show ?thesis by (auto dest: pool_queue_work_planner_ok)
next
  case A_work_done
  with assms show ?thesis by (auto simp: work_done_def planner_ok_def split: if_splits)
next
  case A_queue_done
  with assms show ?thesis
    by (auto simp: queue_done_def w_unregister_def pop_def planner_ok_def
        split: if_splits sum.splits list.splits)
next
  case A_cleanup
  with assms show ?thesis by (auto simp: pool_cleanup_def planner_ok_def split: if_splits)
next
  case A_planner
  with assms show ?thesis by (auto split: if_splits dest: planner_planner_ok)
next
  case A_planner_wakeup
  with assms show ?thesis by (auto split: if_splits dest: planner_wakeup_planner_ok)
next
  case (A_worker idx)
  with assms show ?thesis by (auto dest: worker_planner_ok)
qed

lemma reachable_planner_ok: "reachable val pi \<Longrightarrow> planner_ok pi"
proof (induction rule: reachable.induct)
  case reach_init
  show ?case by (simp add: planner_ok_def pool_init_def)
next
  case (reach_step pi a pi')
  then show ?case by (auto dest: step_planner_ok)
qed

lemma pool_inv_tids_ok:
  assumes "pool_inv n pi"
  shows "tids_ok pi"
proof -
  from assms have n: "nthreads pi = n"
    and l2: "filter is_o (submitted (hist pi)) = pick ev_taken_o (hist pi) @ ordered pi"
    and l3: "filter (\<lambda>w. \<not> is_o w) (submitted (hist pi)) =
             pick ev_taken_u (hist pi) @ unordered pi"
    and r: "\<forall>w\<in>set (submitted (hist pi)). unat (thread_id w) < unat n"
    by (simp_all add: pool_inv_def)
  have "set (ordered pi) \<subseteq> set (filter is_o (submitted (hist pi)))"
    unfolding l2 by simp
  moreover have "set (unordered pi) \<subseteq> set (filter (\<lambda>w. \<not> is_o w) (submitted (hist pi)))"
    unfolding l3 by simp
  ultimately show ?thesis using r n unfolding tids_ok_def by auto
qed

lemma sm_move_ok:
  assumes "st \<in> set (planner_states_allowed (planner_sm pi))"
    "planner_invariant (pi\<lparr>planner_sm := st\<rparr>) (planner_sm pi)"
  shows "sm_move pi st = Inr (pi\<lparr>planner_sm := st\<rparr>)"
  using assms by (simp add: sm_move_def)

lemma drain_one_total:
  assumes "tids_ok pi" "\<not> (empty (ordered pi) \<and> empty (unordered pi))"
  shows "\<exists>pi'. drain_one pi = Inr pi' \<and> tids_ok pi' \<and> planner_sm pi' = planner_sm pi"
  using assms
  by (auto simp: drain_one_def qos_pop_def pop_def to_worker_def tids_ok_def empty_def
      split: list.splits)

lemma draining_loop_total:
  "tids_ok pi \<Longrightarrow> planner_sm pi = PS_DRAINING \<Longrightarrow> \<exists>pi'. draining_loop pi = Inr pi'"
proof (induction pi rule: draining_loop.induct)
  case (1 pi)
  show ?case
  proof (cases "empty (ordered pi) \<and> empty (unordered pi)")
    case True
    with "1.prems" show ?thesis
      by (simp add: draining_loop.simps [of pi] sm_move_def planner_states_allowed_def
          planner_invariant_def)
  next
    case False
    from "1.prems"(2) have m: "sm_move pi PS_DRAINING = Inr pi"
      by (simp add: sm_move_def planner_states_allowed_def planner_invariant_def)
    show ?thesis
    proof (cases "\<not> empty (ordered pi) \<and> q_type (head (ordered pi)) = Some WT_BAR")
      case True
      with False m "1.prems"(2) show ?thesis
        by (simp add: draining_loop.simps [of pi] sm_move_def planner_states_allowed_def
            planner_invariant_def)
    next
      case nb: False
      from drain_one_total [OF "1.prems"(1) False] obtain pi2 where
        d: "drain_one pi = Inr pi2" and t: "tids_ok pi2" and s: "planner_sm pi2 = planner_sm pi"
        by blast
      from "1.IH" [OF False m nb d t] s "1.prems"(2)
      obtain pi' where "draining_loop pi2 = Inr pi'" by auto
      with False m nb d show ?thesis by (auto simp: draining_loop.simps [of pi])
    qed
  qed
qed

lemma unord_one_total:
  assumes "tids_ok pi" "\<not> empty (unordered pi)"
  shows "\<exists>pi'. unord_one pi = Inr pi' \<and> tids_ok pi' \<and> planner_sm pi' = planner_sm pi"
  using assms
  by (auto simp: unord_one_def pop_def to_worker_def tids_ok_def empty_def split: list.splits)

lemma draining_unord_loop_total:
  "tids_ok pi \<Longrightarrow> planner_sm pi = PS_DRAINING_UNORD \<Longrightarrow>
   \<exists>pi'. draining_unord_loop pi = Inr pi'"
proof (induction pi rule: draining_unord_loop.induct)
  case (1 pi)
  show ?case
  proof (cases "empty (unordered pi)")
    case True
    with "1.prems" show ?thesis
      by (simp add: draining_unord_loop.simps [of pi] sm_move_def planner_states_allowed_def
          planner_invariant_def)
  next
    case False
    from unord_one_total [OF "1.prems"(1) False] obtain pi1 where
      d: "unord_one pi = Inr pi1" and t: "tids_ok pi1" and s: "planner_sm pi1 = planner_sm pi"
      by blast
    from "1.IH" [OF False d t] s "1.prems"(2)
    obtain pi' where "draining_unord_loop pi1 = Inr pi'" by auto
    with False d show ?thesis by (simp add: draining_unord_loop.simps [of pi])
  qed
qed

lemma planner_Inl:
  assumes t: "tids_ok pi" and ok: "planner_ok pi" and p: "planner pi = Inl e"
  shows "planner_sm pi = PS_NOTHING \<and> exiting pi \<and> (ordered pi \<noteq> [] \<or> unordered pi \<noteq> [])"
proof (cases "planner_sm pi")
  case PS_NOTHING
  with p show ?thesis
    by (auto simp: planner_def sm_move_def planner_states_allowed_def planner_invariant_def
        empty_def split: if_splits)
next
  case PS_DRAINING
  with p draining_loop_total [OF t PS_DRAINING] show ?thesis by (auto simp: planner_def)
next
  case PS_BARRIER
  with ok obtain q rest where o: "ordered pi = q # rest" and b: "type q = WT_BAR"
    by (auto simp: planner_ok_def head_def q_type_def split: list.splits)
  with p PS_BARRIER show ?thesis
    by (auto simp: planner_def pop_def sm_move_def planner_states_allowed_def
        planner_invariant_def empty_def split: if_splits)
next
  case PS_DRAINING_UNORD
  with p draining_unord_loop_total [OF t PS_DRAINING_UNORD] show ?thesis
    by (auto simp: planner_def)
next
  case PS_EXITED
  with p show ?thesis by (simp add: planner_def)
qed

lemma planner_wakeup_Inr: "\<exists>pi'. planner_wakeup pi = Inr pi'"
  by (cases "planner_sm pi")
    (simp_all add: planner_wakeup_def sm_move_def planner_states_allowed_def
      planner_invariant_def)

lemma of_nat_u64_zero:
  assumes "(of_nat k :: u64) = 0" "k < 2 ^ 64"
  shows "k = 0"
proof -
  have "unat (of_nat k :: u64) = k" using assms(2) by (simp add: unat_of_nat)
  with assms(1) show ?thesis by simp
qed

lemma pool_inv_active_ws:
  assumes inv: "pool_inv n pi" and d: "doneq pi \<noteq> []"
    and b: "length (submitted (hist pi)) < 2 ^ 32"
  shows "active_ws pi \<noteq> 0"
proof
  assume z: "active_ws pi = 0"
  let ?S = "length (filter (\<lambda>w. type w \<noteq> WT_BAR) (submitted (hist pi)))"
  let ?A = "length (pick ev_afterworked (hist pi))"
  from inv have a: "active_ws pi = of_nat ?S - of_nat ?A"
    and l6: "pick ev_finished (hist pi) = pick ev_afterworked (hist pi) @ doneq pi @ outq pi"
    and r3: "length (pick ev_finished (hist pi)) + held pi +
        length (filter (\<lambda>w. type w \<noteq> WT_BAR) (ordered pi)) + length (unordered pi) = ?S"
    unfolding pool_inv_def by blast+
  from l6 have "length (pick ev_finished (hist pi)) = ?A + length (doneq pi) + length (outq pi)"
    by simp
  with d r3 have lt: "?A < ?S" by (cases "doneq pi") auto
  have "?S \<le> length (submitted (hist pi))" by simp
  from this b have sb: "?S < 2 ^ 32" by (rule le_less_trans)
  from lt have "(of_nat (?S - ?A) :: u64) = of_nat ?S - of_nat ?A" by simp
  with a z have "(of_nat (?S - ?A) :: u64) = 0" by simp
  moreover have "?S - ?A < 2 ^ 64"
  proof -
    have "(2::nat) ^ 32 \<le> 2 ^ 64" by simp
    with sb show ?thesis by linarith
  qed
  ultimately have "?S - ?A = 0" by (rule of_nat_u64_zero)
  with lt show False by simp
qed

lemma queue_done_Inl:
  assumes inv: "pool_inv n pi" and b: "length (submitted (hist pi)) < 2 ^ 32"
    and q: "queue_done pi = Inl e"
  shows "e = Blocked"
proof (cases "doneq pi")
  case Nil
  with q show ?thesis by (simp add: queue_done_def empty_def)
next
  case (Cons w rest)
  then have "doneq pi \<noteq> []" by simp
  from pool_inv_active_ws [OF inv this b] have "0 < active_ws pi"
    by (simp add: word_neq_0_conv)
  with q Cons show ?thesis
    by (simp add: queue_done_def empty_def pop_def w_unregister_def has_active_ws_def)
qed

lemma worker_Inl:
  assumes inv: "pool_inv n pi" and b: "length (submitted (hist pi)) < 2 ^ 32"
    and w: "worker idx pi = Inl e"
  shows "e = Blocked"
proof (rule ccontr)
  assume "e \<noteq> Blocked"
  then have e: "e = Abort" by (cases e) auto
  from w e obtain wtype where t: "idx < unat (nthreads pi)"
    and at: "worker_at pi idx = W_POST wtype" and ty: "WT_BAR < wtype"
    and z: "in_flight pi = 0"
    by (auto simp: worker_def worker_top_def worker_work_def worker_post_def empty_def pop_def
        word_neq_0_conv [symmetric]
        split: if_splits worker_pc.splits list.splits)
  from pool_inv_pending_zero [OF inv z b]
  have "pending_of (unat (nthreads pi)) (inq pi) (worker_at pi) = 0"
    by (simp add: pending_def)
  from pending_of_zero [OF this t] at ty show False by simp
qed

lemma pool_threads_init_nthreads_nonzero: "pool_threads_init_nthreads val \<noteq> 0"
  by (auto simp add: nthreads_defs Let_def split: option.splits)

lemma pool_queue_work_Inl:
  assumes "nthreads pi \<noteq> 0" "pool_queue_work pi w cookie = Inl Abort"
  shows "WT_UNORD < type w \<and> o_prev pi \<noteq> WT_BAR \<and> type w \<noteq> WT_BAR \<and> o_prev pi \<noteq> type w"
  using assms
  by (auto simp: pool_queue_work_def pool_work_submit_def w_register_def Let_def
      split: if_splits)


subsection \<open>Barriers and the order of callbacks\<close>

lemma reachable_before_bar_free:
  "reachable val pi \<Longrightarrow> hist pi = pre @ EvBarFree B # post \<Longrightarrow>
   \<exists>pi0 pi1. reachable val pi0 \<and> hist pi0 = pre \<and> step A_planner pi0 = Inr pi1 \<and>
     bar_freed pi0 pi1 B"
proof (induction arbitrary: post rule: reachable.induct)
  case reach_init
  then show ?case by (simp add: pool_init_def)
next
  case (reach_step pi a pi')
  from step_cases [OF reach_step(2)] consider
    (quiet) "grows pi pi'" | (free) B' where "a = A_planner" "bar_freed pi pi' B'"
    | (cb) t' w' where "cb_started pi pi' t' w'"
    by blast
  then show ?case
  proof cases
    case quiet
    then obtain evs where e: "hist pi' = hist pi @ evs" and n: "EvBarFree B \<notin> set evs"
      by (auto simp: grows_def)
    from e reach_step(4) have "hist pi @ evs = pre @ EvBarFree B # post" by simp
    from split_at_absent [OF this n] obtain post' where "hist pi = pre @ EvBarFree B # post'"
      by (rule exE)
    from reach_step(3) [OF this] show ?thesis .
  next
    case cb
    then have e: "hist pi' = hist pi @ [EvWorkCb t' w']" by (simp add: cb_started_def)
    with reach_step(4) have x: "hist pi @ [EvWorkCb t' w'] = pre @ EvBarFree B # post" by simp
    have y: "EvBarFree B \<notin> set [EvWorkCb t' w']" by simp
    from split_at_absent [OF x y] obtain post' where "hist pi = pre @ EvBarFree B # post'"
      by (rule exE)
    from reach_step(3) [OF this] show ?thesis .
  next
    case free
    then have e: "hist pi' = hist pi @ [EvBarFree B']" by (simp add: bar_freed_def)
    with reach_step(4) have "hist pi @ [EvBarFree B'] = pre @ EvBarFree B # post" by simp
    from split_at_last [OF this] show ?thesis
    proof
      assume "pre = hist pi \<and> EvBarFree B = EvBarFree B' \<and> post = []"
      then have p: "hist pi = pre" and bb: "B' = B" by simp_all
      from reach_step(2) free(1) have s: "step A_planner pi = Inr pi'" by (simp only:)
      from free(2) bb have f: "bar_freed pi pi' B" by (simp only:)
      from reach_step(1) p s f show ?thesis by (intro exI conjI)
    next
      assume "\<exists>post'. hist pi = pre @ EvBarFree B # post'"
      then obtain post' where "hist pi = pre @ EvBarFree B # post'" by (rule exE)
      from reach_step(3) [OF this] show ?thesis .
    qed
  qed
qed

lemma barrier_point_queues:
  assumes inv: "pool_inv n pi" and u: "unordered pi = []" and o: "ordered pi = B # rest"
  shows "EvSubmit B \<in> set (hist pi) \<and>
    (\<forall>w. EvSubmit w \<in> set (hist pi) \<and> wid w < wid B \<and> type w = WT_BAR \<longrightarrow>
          EvBarFree w \<in> set (hist pi)) \<and>
    (\<forall>w. EvSubmit w \<in> set (hist pi) \<and> type w = WT_UNORD \<longrightarrow> EvDispatch w \<in> set (hist pi)) \<and>
    (\<forall>w. WT_UNORD < type w \<and> wid B < wid w \<longrightarrow>
          EvDispatch w \<notin> set (hist pi) \<and> (\<forall>t. EvWorkCb t w \<notin> set (hist pi)))"
proof -
  let ?h = "hist pi"
  have srt: "sorted_wrt (\<lambda>a b. wid a < wid b) (pick ev_taken_o ?h @ B # rest)"
    using pool_inv_sorted_o [OF inv] o by simp
  have l2: "filter is_o (submitted ?h) = pick ev_taken_o ?h @ B # rest"
    using inv o by (simp add: pool_inv_def)
  have l3: "filter (\<lambda>w. \<not> is_o w) (submitted ?h) = pick ev_taken_u ?h"
    using inv u by (simp add: pool_inv_def)
  have t0: "\<And>w. EvDispatch w \<in> set ?h \<Longrightarrow> type w \<noteq> WT_BAR"
    using inv by (simp add: pool_inv_def)
  have before: "wid w < wid B" if "w \<in> set (pick ev_taken_o ?h)" for w
    using srt that by (auto simp: sorted_wrt_append)
  have after: "wid B < wid w" if "w \<in> set rest" for w
    using srt that by (auto simp: sorted_wrt_append)
  have a: "EvBarFree w \<in> set ?h"
    if w: "EvSubmit w \<in> set ?h" "wid w < wid B" "type w = WT_BAR" for w
  proof -
    from w(3) have io: "is_o w" by (simp add: is_o_def WT_BAR_def WT_UNORD_def)
    from w(1) io have "w \<in> set (filter is_o (submitted ?h))" by (simp add: set_submitted)
    with l2 have "w \<in> set (pick ev_taken_o ?h) \<or> w = B \<or> w \<in> set rest" by auto
    moreover have "w \<noteq> B" using w(2) by auto
    moreover have "w \<notin> set rest" using after [of w] w(2) by auto
    ultimately have "w \<in> set (pick ev_taken_o ?h)" by blast
    with t0 [of w] w(3) show ?thesis by (auto simp: set_taken_o)
  qed
  have bb: "EvDispatch w \<in> set ?h" if w: "EvSubmit w \<in> set ?h" "type w = WT_UNORD" for w
  proof -
    from w(2) have "\<not> is_o w" by (simp add: is_o_def)
    with w(1) have "w \<in> set (filter (\<lambda>w. \<not> is_o w) (submitted ?h))"
      by (simp add: set_submitted)
    with l3 show ?thesis by (simp add: set_taken_u)
  qed
  have c: "EvDispatch w \<notin> set ?h \<and> (\<forall>t. EvWorkCb t w \<notin> set ?h)"
    if w: "WT_UNORD < type w" "wid B < wid w" for w
  proof -
    have "EvDispatch w \<notin> set ?h"
    proof
      assume "EvDispatch w \<in> set ?h"
      with w(1) have "w \<in> set (pick ev_taken_o ?h)" by (simp add: set_taken_o is_o_def)
      from before [OF this] w(2) show False by simp
    qed
    then show ?thesis using pool_inv_started_dispatched [OF inv] by blast
  qed
  have "B \<in> set (filter is_o (submitted ?h))" by (simp add: l2)
  then have sb: "EvSubmit B \<in> set ?h" by (simp add: set_submitted)
  from a bb c sb show ?thesis by blast
qed

lemma barrier_point_ordered:
  assumes inv: "pool_inv n pi" and pz: "pending pi = 0" and o: "ordered pi = B # rest"
    and w: "EvSubmit w \<in> set (hist pi)" "wid w < wid B" "WT_ORD1 \<le> type w"
  shows "\<exists>t. EvWorkDone t w \<in> set (hist pi)"
proof -
  let ?h = "hist pi"
  have srt: "sorted_wrt (\<lambda>a b. wid a < wid b) (pick ev_taken_o ?h @ B # rest)"
    using pool_inv_sorted_o [OF inv] o by simp
  have l2: "filter is_o (submitted ?h) = pick ev_taken_o ?h @ B # rest"
    using inv o by (simp add: pool_inv_def)
  have l4: "\<And>t. pick (ev_sent_to t) ?h = pick (ev_started_on t) ?h @ inq pi t"
    using inv by (simp add: pool_inv_def)
  have l5: "\<And>t. pick (ev_started_on t) ?h = pick (ev_finished_on t) ?h @ running (worker_at pi t)"
    using inv by (simp add: pool_inv_def)
  have t1: "\<And>w. EvDispatch w \<in> set ?h \<Longrightarrow> unat (thread_id w) < unat (nthreads pi)"
    using inv by (simp add: pool_inv_def)
  have t2: "\<And>w. EvBarFree w \<in> set ?h \<Longrightarrow> type w = WT_BAR"
    using inv by (simp add: pool_inv_def)
  have pz': "pending_of (unat (nthreads pi)) (inq pi) (worker_at pi) = 0"
    using pz by (simp add: pending_def)
  have after: "wid B < wid w" if "w \<in> set rest" for w
    using srt that by (auto simp: sorted_wrt_append)
  from w(3) have ord: "is_ord w" by (simp add: is_ord_def)
  then have io: "is_o w" and nbar: "type w \<noteq> WT_BAR" by (simp_all add: is_ord_is_o)
  from w(1) io have "w \<in> set (filter is_o (submitted ?h))" by (simp add: set_submitted)
  with l2 have "w \<in> set (pick ev_taken_o ?h) \<or> w = B \<or> w \<in> set rest" by auto
  moreover have "w \<noteq> B" using w(2) by auto
  moreover have "w \<notin> set rest" using after [of w] w(2) by auto
  ultimately have "w \<in> set (pick ev_taken_o ?h)" by blast
  with t2 nbar have d: "EvDispatch w \<in> set ?h" by (auto simp: set_taken_o)
  define t where "t = unat (thread_id w)"
  from d have tn: "t < unat (nthreads pi)" unfolding t_def by (rule t1)
  from pending_of_zero [OF pz' tn]
  have e1: "filter is_ord (inq pi t) = []" and e2: "worker_cnt (worker_at pi t) = 0" by auto
  from d have "w \<in> set (pick (ev_sent_to t) ?h)" by (simp add: set_sent_to t_def)
  with l4 [of t] have "w \<in> set (pick (ev_started_on t) ?h) \<or> w \<in> set (inq pi t)" by auto
  moreover from e1 ord have "w \<notin> set (inq pi t)" by (auto simp: filter_empty_conv)
  ultimately have "w \<in> set (pick (ev_started_on t) ?h)" by simp
  with l5 [of t] have "w \<in> set (pick (ev_finished_on t) ?h) \<or> w \<in> set (running (worker_at pi t))"
    by auto
  moreover from e2 ord have "w \<notin> set (running (worker_at pi t))"
    by (cases "worker_at pi t") (auto split: if_splits)
  ultimately show ?thesis by (auto simp: set_finished_on)
qed

lemma pool_inv_pending_small:
  assumes inv: "pool_inv n pi" and z: "in_flight pi = 0" and b: "pending pi < 2 ^ 32"
  shows "pending pi = 0"
proof -
  from inv have "in_flight pi = of_nat (pending pi)" by (simp add: pool_inv_def)
  with z have "(of_nat (pending pi) :: u32) = 0" by simp
  from this b show ?thesis by (rule of_nat_u32_zero)
qed

lemma pool_inv_pending_le:
  assumes "pool_inv n pi"
  shows "pending pi \<le> length (submitted (hist pi))"
  using assms by (simp add: pool_inv_def)

lemma sent_sorted:
  assumes inv: "pool_inv n pi"
  shows "sorted_wrt (\<lambda>a b. wid a < wid b) (filter is_ord (pick (ev_sent_to t) (hist pi)))"
proof -
  have nb: "\<not> is_ord w" if "EvBarFree w \<in> set (hist pi)" for w
    using inv that by (auto simp: pool_inv_def is_ord_is_o)
  have "sorted_wrt (\<lambda>a b. wid a < wid b) (pick ev_taken_o (hist pi))"
    using pool_inv_sorted_o [OF inv] by (simp add: sorted_wrt_append)
  then have "sorted_wrt (\<lambda>a b. wid a < wid b)
      (filter (\<lambda>w. is_ord w \<and> unat (thread_id w) = t) (pick ev_taken_o (hist pi)))"
    by (rule sorted_wrt_filter)
  then show ?thesis by (simp add: sent_ord_taken [OF nb])
qed

lemma earlier_ordered_item_sent:
  assumes inv: "pool_inv n pi" and d: "EvDispatch w2 \<in> set (hist pi)"
    and s: "EvSubmit w1 \<in> set (hist pi)" and o: "is_ord w1" "is_ord w2"
    and lt: "wid w1 < wid w2"
  shows "EvDispatch w1 \<in> set (hist pi)"
proof -
  let ?h = "hist pi"
  have srt: "sorted_wrt (\<lambda>a b. wid a < wid b) (pick ev_taken_o ?h @ ordered pi)"
    using pool_inv_sorted_o [OF inv] .
  have l2: "filter is_o (submitted ?h) = pick ev_taken_o ?h @ ordered pi"
    using inv by (simp add: pool_inv_def)
  have t2: "\<And>w. EvBarFree w \<in> set ?h \<Longrightarrow> type w = WT_BAR"
    using inv by (simp add: pool_inv_def)
  from o have io: "is_o w1" "is_o w2" and nbar: "type w1 \<noteq> WT_BAR"
    by (simp_all add: is_ord_is_o)
  from d io(2) have 2: "w2 \<in> set (pick ev_taken_o ?h)" by (simp add: set_taken_o)
  from s io(1) have "w1 \<in> set (filter is_o (submitted ?h))" by (simp add: set_submitted)
  with l2 have "w1 \<in> set (pick ev_taken_o ?h) \<or> w1 \<in> set (ordered pi)" by auto
  moreover have "w1 \<notin> set (ordered pi)"
  proof
    assume "w1 \<in> set (ordered pi)"
    with srt 2 have "wid w2 < wid w1" by (auto simp: sorted_wrt_append)
    with lt show False by simp
  qed
  ultimately have "w1 \<in> set (pick ev_taken_o ?h)" by simp
  with t2 [of w1] nbar show ?thesis by (auto simp: set_taken_o)
qed

lemma earlier_ordered_item_finished:
  assumes r: "reachable val pi" and h: "hist pi = h1 @ EvWorkCb t w2 # h3"
    and s: "EvSubmit w1 \<in> set (hist pi)" and o: "is_ord w1" "is_ord w2"
    and same: "unat (thread_id w1) = unat (thread_id w2)" and lt: "wid w1 < wid w2"
  shows "EvWorkCb t w1 \<in> set h1 \<and> EvWorkDone t w1 \<in> set h1"
proof -
  note inv = reachable_inv [OF r]
  let ?h = "hist pi"
  from h have c2: "EvWorkCb t w2 \<in> set ?h" by simp
  from pool_inv_started_dispatched [OF inv c2]
  have d2: "EvDispatch w2 \<in> set ?h" and t2: "unat (thread_id w2) = t" by auto
  from earlier_ordered_item_sent [OF inv d2 s o lt] have d1: "EvDispatch w1 \<in> set ?h" .
  with same t2 have "w1 \<in> set (pick (ev_sent_to t) ?h)" by (simp add: set_sent_to)
  moreover from inv
  have l4: "pick (ev_sent_to t) ?h = pick (ev_started_on t) ?h @ inq pi t"
    by (simp add: pool_inv_def)
  ultimately have "w1 \<in> set (pick (ev_started_on t) ?h) \<or> w1 \<in> set (inq pi t)" by auto
  moreover have "w1 \<notin> set (inq pi t)"
  proof
    assume "w1 \<in> set (inq pi t)"
    moreover from c2 have "w2 \<in> set (pick (ev_started_on t) ?h)" by (simp add: set_started_on)
    moreover from sent_sorted [OF inv, of t] l4
    have "sorted_wrt (\<lambda>a b. wid a < wid b)
        (filter is_ord (pick (ev_started_on t) ?h) @ filter is_ord (inq pi t))"
      by simp
    ultimately have "wid w2 < wid w1" using o by (auto simp: sorted_wrt_append)
    with lt show False by simp
  qed
  ultimately have "EvWorkCb t w1 \<in> set ?h" by (simp add: set_started_on)
  moreover have "w1 \<noteq> w2" using lt by auto
  ultimately have "EvWorkCb t w1 \<in> set h1 \<or> EvWorkCb t w1 \<in> set h3" by (simp add: h)
  moreover have "EvWorkCb t w1 \<notin> set h3"
  proof
    assume "EvWorkCb t w1 \<in> set h3"
    then obtain a b where "h3 = a @ EvWorkCb t w1 # b" by (blast dest: split_list)
    with h have "hist pi = h1 @ EvWorkCb t w2 # a @ EvWorkCb t w1 # b" by simp
    from callbacks_in_submission_order [OF r this o(2,1)] lt show False by simp
  qed
  ultimately have c1: "EvWorkCb t w1 \<in> set h1" by simp
  then obtain a b where ab: "h1 = a @ EvWorkCb t w1 # b" by (blast dest: split_list)
  with h have hh: "hist pi = a @ EvWorkCb t w1 # b @ EvWorkCb t w2 # h3" by simp
  from callbacks_do_not_overlap [OF r hh] have "EvWorkDone t w1 \<in> set b" .
  with ab have "EvWorkDone t w1 \<in> set h1" by simp
  with c1 show ?thesis by simp
qed






subsection \<open>The example runs\<close>

lemmas pool_defs = pool_init_def planner_def planner_wakeup_def empty_def head_def push_def pop_def
  qos_pop_def q_type_def planner_states_allowed_def planner_invariant_def sm_move_def
  to_worker_def drain_one_def unord_one_def mutex_free_def worker_top_def worker_work_def
  worker_post_def worker_def pool_cleanup_def pool_work_submit_def pool_queue_work_def
  work_done_def queue_done_def new_work_def w_register_def w_unregister_def
  has_active_ws_def WT_UNORD_def WT_BAR_def WT_ORD1_def nthreads_defs
  draining_loop.simps draining_unord_loop.simps

lemma lessThan_four: "{..<(4::nat)} = {0, 1, 2, 3}"
  by auto

lemma ex_ordered_then_nothing:
  "\<exists>pi. run run_ordered_then_nothing (pool_init None) = Inr pi \<and>
     planner_sm pi = PS_NOTHING \<and> in_flight pi = 1 \<and> pending pi = 1 \<and>
     inq pi 0 = [\<lparr>wid = 0, type = 2, thread_id = 0\<rparr>]"
  by (simp add: run_ordered_then_nothing_def pool_defs submitted_def pending_def pending_of_def
      is_ord_def lessThan_four)

lemma ex_unord_before_bar:
  "\<exists>pi. run run_unord_before_bar (pool_init None) = Inr pi \<and>
     hist pi = [EvSubmit \<lparr>wid = 0, type = 0, thread_id = 0\<rparr>,
                EvSubmit \<lparr>wid = 1, type = 1, thread_id = 0\<rparr>,
                EvDispatch \<lparr>wid = 0, type = 0, thread_id = 0\<rparr>,
                EvBarFree \<lparr>wid = 1, type = 1, thread_id = 0\<rparr>]"
  by (simp add: run_unord_before_bar_def pool_defs submitted_def)

lemma ex_unord_after_bar:
  "\<exists>pi. run run_unord_after_bar (pool_init None) = Inr pi \<and>
     hist pi = [EvSubmit \<lparr>wid = 0, type = 2, thread_id = 0\<rparr>,
                EvSubmit \<lparr>wid = 1, type = 1, thread_id = 0\<rparr>,
                EvDispatch \<lparr>wid = 0, type = 2, thread_id = 0\<rparr>,
                EvSubmit \<lparr>wid = 2, type = 0, thread_id = 1\<rparr>,
                EvDispatch \<lparr>wid = 2, type = 0, thread_id = 1\<rparr>,
                EvWorkCb 1 \<lparr>wid = 2, type = 0, thread_id = 1\<rparr>] \<and>
     ordered pi = [\<lparr>wid = 1, type = 1, thread_id = 0\<rparr>] \<and> planner_sm pi = PS_BARRIER"
  by (simp add: run_unord_after_bar_def pool_defs submitted_def)

lemma ex_bar_after_ordered:
  "\<exists>pi. run run_bar_after_ordered (pool_init None) = Inr pi \<and>
     hist pi = [EvSubmit \<lparr>wid = 0, type = 2, thread_id = 0\<rparr>,
                EvSubmit \<lparr>wid = 1, type = 1, thread_id = 0\<rparr>,
                EvDispatch \<lparr>wid = 0, type = 2, thread_id = 0\<rparr>,
                EvWorkCb 0 \<lparr>wid = 0, type = 2, thread_id = 0\<rparr>,
                EvWorkDone 0 \<lparr>wid = 0, type = 2, thread_id = 0\<rparr>,
                EvBarFree \<lparr>wid = 1, type = 1, thread_id = 0\<rparr>] \<and>
     ordered pi = [] \<and> planner_sm pi = PS_DRAINING \<and> active_ws pi = 1"
  by (simp add: run_bar_after_ordered_def pool_defs submitted_def)

lemma ex_two_workers:
  "\<exists>pi. run run_two_workers (pool_init None) = Inr pi \<and>
     hist pi = [EvSubmit \<lparr>wid = 0, type = 2, thread_id = 0\<rparr>,
                EvSubmit \<lparr>wid = 1, type = 2, thread_id = 1\<rparr>,
                EvDispatch \<lparr>wid = 0, type = 2, thread_id = 0\<rparr>,
                EvDispatch \<lparr>wid = 1, type = 2, thread_id = 1\<rparr>,
                EvWorkCb 1 \<lparr>wid = 1, type = 2, thread_id = 1\<rparr>,
                EvWorkDone 1 \<lparr>wid = 1, type = 2, thread_id = 1\<rparr>,
                EvWorkCb 0 \<lparr>wid = 0, type = 2, thread_id = 0\<rparr>]"
  by (simp add: run_two_workers_def pool_defs submitted_def)

lemma ex_one_worker:
  "\<exists>pi. run run_one_worker (pool_init None) = Inr pi \<and>
     hist pi = [EvSubmit \<lparr>wid = 0, type = 2, thread_id = 0\<rparr>,
                EvSubmit \<lparr>wid = 1, type = 2, thread_id = 0\<rparr>,
                EvDispatch \<lparr>wid = 0, type = 2, thread_id = 0\<rparr>,
                EvDispatch \<lparr>wid = 1, type = 2, thread_id = 0\<rparr>,
                EvWorkCb 0 \<lparr>wid = 0, type = 2, thread_id = 0\<rparr>,
                EvWorkDone 0 \<lparr>wid = 0, type = 2, thread_id = 0\<rparr>,
                EvWorkCb 0 \<lparr>wid = 1, type = 2, thread_id = 0\<rparr>] \<and>
     nthreads pi = 4"
  by (simp add: run_one_worker_def pool_defs submitted_def)

lemma ex_submit_ord1:
  "\<exists>pi. run [A_planner, A_queue_work WT_ORD1 0] (pool_init None) = Inr pi \<and>
     o_prev pi = 2 \<and> planner_at pi = P_WAIT \<and>
     submitted (hist pi) = [\<lparr>wid = 0, type = 2, thread_id = 0\<rparr>]"
  by (simp add: pool_defs submitted_def)


lemma run_reachable_init:
  "run as (pool_init val) = Inr pi \<Longrightarrow> reachable val pi"
  by (rule run_reachable [OF reach_init])

subsection \<open>The gateway\<close>

lemmas gw_defs = gateway_handle_open_def test_gateway_def sqlite3_open_v2_def sqlite3_errstr_def
  SQLITE_OPEN_READONLY_def SQLITE_OPEN_READWRITE_def SQLITE_OPEN_CREATE_def SQLITE_OK_def
  SQLITE_ERROR_def SQLITE_MISUSE_def

lemma upt8: "[0..<8] = [0, 1, 2, 3, 4, 5, 6, 7]"
  by (simp add: upt_rec)

section \<open>Claims\<close>

text \<open>
  Claim C1, as amended. For every barrier \<open>B\<close> that the planner has taken off the ordered
  queue and freed, at that moment (\<open>pre\<close> is the log up to it): every barrier submitted
  before \<open>B\<close> has been freed; every unordered item submitted so far has been handed to the
  inbox of its worker (nothing says that it has begun); and no item of the ordered queue
  submitted after \<open>B\<close> has been handed to a worker or has begun. None of this depends on
  a bound. The planner frees \<open>B\<close> in a step from a reachable state \<open>pi0\<close> whose log is \<open>pre\<close>
  and in which \<open>in_flight\<close> is zero; if fewer than \<open>2^32\<close> strictly ordered items (type
  \<open>WT_ORD1\<close> or above) are with the workers in \<open>pi0\<close> (\<open>in_flight\<close> is a \<open>uint32_t\<close>), then
  every strictly ordered item submitted before \<open>B\<close> has completed its work callback. The
  same holds of every step that frees a barrier. In every reachable state the planner
  moves from \<open>PS_BARRIER\<close> to \<open>PS_DRAINING\<close> only when \<open>in_flight\<close> is zero and the unordered
  queue is empty. The \<open>wid\<close> of an item is the number of submissions before its own.
\<close>

theorem barrier_separates_ordered_items:
  assumes "reachable val pi"
  shows
    "(hist pi = pre @ EvBarFree B # post \<longrightarrow>
        type B = WT_BAR \<and> EvSubmit B \<in> set pre \<and>
        (\<forall>w. EvSubmit w \<in> set pre \<and> wid w < wid B \<and> type w = WT_BAR \<longrightarrow>
              EvBarFree w \<in> set pre) \<and>
        (\<forall>w. EvSubmit w \<in> set pre \<and> type w = WT_UNORD \<longrightarrow> EvDispatch w \<in> set pre) \<and>
        (\<forall>w. WT_UNORD < type w \<and> wid B < wid w \<longrightarrow>
              EvDispatch w \<notin> set pre \<and> (\<forall>t. EvWorkCb t w \<notin> set pre)) \<and>
        (\<exists>pi0 pi1. reachable val pi0 \<and> hist pi0 = pre \<and> step A_planner pi0 = Inr pi1 \<and>
            hist pi1 = pre @ [EvBarFree B] \<and> in_flight pi0 = 0 \<and>
            pending pi0 \<le> length (submitted pre) \<and>
            (pending pi0 < 2 ^ 32 \<longrightarrow>
               (\<forall>w. EvSubmit w \<in> set pre \<and> wid w < wid B \<and> WT_ORD1 \<le> type w \<longrightarrow>
                     (\<exists>t. EvWorkDone t w \<in> set pre))))) \<and>
     (\<forall>a pi' B'. step a pi = Inr pi' \<and> EvBarFree B' \<in> set (hist pi') \<and>
          EvBarFree B' \<notin> set (hist pi) \<and> pending pi < 2 ^ 32 \<longrightarrow>
          (\<forall>w. EvSubmit w \<in> set (hist pi) \<and> wid w < wid B' \<and> WT_ORD1 \<le> type w \<longrightarrow>
                (\<exists>t. EvWorkDone t w \<in> set (hist pi)))) \<and>
     (\<forall>a pi'. step a pi = Inr pi' \<and> planner_sm pi = PS_BARRIER \<and> planner_sm pi' = PS_DRAINING \<longrightarrow>
        a = A_planner \<and> in_flight pi = 0 \<and> unordered pi = []) \<and>
     map wid (submitted (hist pi)) = [0..<length (submitted (hist pi))]"
proof -
  have ordered_done: "\<exists>t. EvWorkDone t w \<in> set (hist p)"
    if "reachable val p" "bar_freed p p' b" "pending p < 2 ^ 32"
      "EvSubmit w \<in> set (hist p)" "wid w < wid b" "WT_ORD1 \<le> type w" for p p' b w
  proof -
    note inv = reachable_inv [OF that(1)]
    from that(2) have z: "in_flight p = 0" and o: "ordered p = b # ordered p'"
      by (simp_all add: bar_freed_def)
    from barrier_point_ordered [OF inv pool_inv_pending_small [OF inv z that(3)] o that(4,5,6)]
    show ?thesis .
  qed
  have 1: "type B = WT_BAR \<and> EvSubmit B \<in> set pre \<and>
        (\<forall>w. EvSubmit w \<in> set pre \<and> wid w < wid B \<and> type w = WT_BAR \<longrightarrow>
              EvBarFree w \<in> set pre) \<and>
        (\<forall>w. EvSubmit w \<in> set pre \<and> type w = WT_UNORD \<longrightarrow> EvDispatch w \<in> set pre) \<and>
        (\<forall>w. WT_UNORD < type w \<and> wid B < wid w \<longrightarrow>
              EvDispatch w \<notin> set pre \<and> (\<forall>t. EvWorkCb t w \<notin> set pre)) \<and>
        (\<exists>pi0 pi1. reachable val pi0 \<and> hist pi0 = pre \<and> step A_planner pi0 = Inr pi1 \<and>
            hist pi1 = pre @ [EvBarFree B] \<and> in_flight pi0 = 0 \<and>
            pending pi0 \<le> length (submitted pre) \<and>
            (pending pi0 < 2 ^ 32 \<longrightarrow>
               (\<forall>w. EvSubmit w \<in> set pre \<and> wid w < wid B \<and> WT_ORD1 \<le> type w \<longrightarrow>
                     (\<exists>t. EvWorkDone t w \<in> set pre))))"
    if h: "hist pi = pre @ EvBarFree B # post"
  proof -
    from reachable_before_bar_free [OF assms h] obtain pi0 pi1 where
      r0: "reachable val pi0" and h0: "hist pi0 = pre" and s0: "step A_planner pi0 = Inr pi1"
      and f0: "bar_freed pi0 pi1 B"
      by blast
    note inv0 = reachable_inv [OF r0]
    from f0 have h1: "hist pi1 = pre @ [EvBarFree B]" and z: "in_flight pi0 = 0"
      and u: "unordered pi0 = []" and o: "ordered pi0 = B # ordered pi1"
      and bar: "type B = WT_BAR"
      by (simp_all add: bar_freed_def h0)
    note q = barrier_point_queues [OF inv0 u o, unfolded h0]
    have le: "pending pi0 \<le> length (submitted pre)"
      using pool_inv_pending_le [OF inv0] by (simp add: h0)
    have d: "pending pi0 < 2 ^ 32 \<longrightarrow>
        (\<forall>w. EvSubmit w \<in> set pre \<and> wid w < wid B \<and> WT_ORD1 \<le> type w \<longrightarrow>
              (\<exists>t. EvWorkDone t w \<in> set pre))"
      using ordered_done [OF r0 f0] unfolding h0 by blast
    from r0 h0 s0 h1 z le d
    have "\<exists>pi0 pi1. reachable val pi0 \<and> hist pi0 = pre \<and> step A_planner pi0 = Inr pi1 \<and>
            hist pi1 = pre @ [EvBarFree B] \<and> in_flight pi0 = 0 \<and>
            pending pi0 \<le> length (submitted pre) \<and>
            (pending pi0 < 2 ^ 32 \<longrightarrow>
               (\<forall>w. EvSubmit w \<in> set pre \<and> wid w < wid B \<and> WT_ORD1 \<le> type w \<longrightarrow>
                     (\<exists>t. EvWorkDone t w \<in> set pre)))"
      by (intro exI conjI)
    with bar q show ?thesis by (intro conjI) (elim conjE, assumption)+
  qed
  have 2: "\<exists>t. EvWorkDone t w \<in> set (hist pi)"
    if "step a pi = Inr pi'" "EvBarFree B' \<in> set (hist pi')" "EvBarFree B' \<notin> set (hist pi)"
      "pending pi < 2 ^ 32" "EvSubmit w \<in> set (hist pi)" "wid w < wid B'" "WT_ORD1 \<le> type w"
    for a pi' B' w
  proof -
    from bar_free_step [OF that(1,2,3)] have "bar_freed pi pi' B'" by simp
    from ordered_done [OF assms this that(4,5,6,7)] show ?thesis .
  qed
  have 3: "a = A_planner \<and> in_flight pi = 0 \<and> unordered pi = []"
    if "step a pi = Inr pi'" "planner_sm pi = PS_BARRIER" "planner_sm pi' = PS_DRAINING"
    for a pi'
    using barrier_to_draining [OF that] .
  have 4: "map wid (submitted (hist pi)) = [0..<length (submitted (hist pi))]"
    using reachable_inv [OF assms] by (simp add: pool_inv_def)
  from 1 have g1: "hist pi = pre @ EvBarFree B # post \<longrightarrow>
        type B = WT_BAR \<and> EvSubmit B \<in> set pre \<and>
        (\<forall>w. EvSubmit w \<in> set pre \<and> wid w < wid B \<and> type w = WT_BAR \<longrightarrow>
              EvBarFree w \<in> set pre) \<and>
        (\<forall>w. EvSubmit w \<in> set pre \<and> type w = WT_UNORD \<longrightarrow> EvDispatch w \<in> set pre) \<and>
        (\<forall>w. WT_UNORD < type w \<and> wid B < wid w \<longrightarrow>
              EvDispatch w \<notin> set pre \<and> (\<forall>t. EvWorkCb t w \<notin> set pre)) \<and>
        (\<exists>pi0 pi1. reachable val pi0 \<and> hist pi0 = pre \<and> step A_planner pi0 = Inr pi1 \<and>
            hist pi1 = pre @ [EvBarFree B] \<and> in_flight pi0 = 0 \<and>
            pending pi0 \<le> length (submitted pre) \<and>
            (pending pi0 < 2 ^ 32 \<longrightarrow>
               (\<forall>w. EvSubmit w \<in> set pre \<and> wid w < wid B \<and> WT_ORD1 \<le> type w \<longrightarrow>
                     (\<exists>t. EvWorkDone t w \<in> set pre))))"
    by (rule impI)
  from 2 have g2: "\<forall>a pi' B'. step a pi = Inr pi' \<and> EvBarFree B' \<in> set (hist pi') \<and>
          EvBarFree B' \<notin> set (hist pi) \<and> pending pi < 2 ^ 32 \<longrightarrow>
          (\<forall>w. EvSubmit w \<in> set (hist pi) \<and> wid w < wid B' \<and> WT_ORD1 \<le> type w \<longrightarrow>
                (\<exists>t. EvWorkDone t w \<in> set (hist pi)))"
    by blast
  from 3 have g3: "\<forall>a pi'. step a pi = Inr pi' \<and> planner_sm pi = PS_BARRIER \<and>
        planner_sm pi' = PS_DRAINING \<longrightarrow> a = A_planner \<and> in_flight pi = 0 \<and> unordered pi = []"
    by blast
  from g1 g2 g3 4 show ?thesis by (intro conjI)
qed

theorem barrier_separates_ordered_items_witness:
  "\<exists>pi. run run_bar_after_ordered (pool_init None) = Inr pi \<and> reachable None pi \<and>
     hist pi = [EvSubmit \<lparr>wid = 0, type = 2, thread_id = 0\<rparr>,
                EvSubmit \<lparr>wid = 1, type = 1, thread_id = 0\<rparr>,
                EvDispatch \<lparr>wid = 0, type = 2, thread_id = 0\<rparr>,
                EvWorkCb 0 \<lparr>wid = 0, type = 2, thread_id = 0\<rparr>,
                EvWorkDone 0 \<lparr>wid = 0, type = 2, thread_id = 0\<rparr>] @
               EvBarFree \<lparr>wid = 1, type = 1, thread_id = 0\<rparr> # [] \<and>
     type \<lparr>wid = 1, type = 1, thread_id = 0\<rparr> = WT_BAR \<and>
     (\<exists>t. EvWorkDone t \<lparr>wid = 0, type = 2, thread_id = 0\<rparr> \<in>
        set [EvSubmit \<lparr>wid = 0, type = 2, thread_id = 0\<rparr>,
             EvSubmit \<lparr>wid = 1, type = 1, thread_id = 0\<rparr>,
             EvDispatch \<lparr>wid = 0, type = 2, thread_id = 0\<rparr>,
             EvWorkCb 0 \<lparr>wid = 0, type = 2, thread_id = 0\<rparr>,
             EvWorkDone 0 \<lparr>wid = 0, type = 2, thread_id = 0\<rparr>]) \<and>
     map wid (submitted (hist pi)) = [0..<length (submitted (hist pi))]"
proof -
  let ?w = "\<lparr>wid = 0, type = 2, thread_id = (0::u32)\<rparr>"
  let ?b = "\<lparr>wid = 1, type = 1, thread_id = (0::u32)\<rparr>"
  let ?pre = "[EvSubmit ?w, EvSubmit ?b, EvDispatch ?w, EvWorkCb 0 ?w, EvWorkDone 0 ?w]"
  from ex_bar_after_ordered obtain pi where
    r: "run run_bar_after_ordered (pool_init None) = Inr pi"
    and h: "hist pi = [EvSubmit ?w, EvSubmit ?b, EvDispatch ?w, EvWorkCb 0 ?w, EvWorkDone 0 ?w,
                       EvBarFree ?b]"
    by blast
  have re: "reachable None pi" using run_reachable_init [OF r] .
  have sp: "hist pi = ?pre @ EvBarFree ?b # []" by (simp add: h)
  note inst = barrier_separates_ordered_items [OF re, of ?pre ?b "[]"]
  from inst sp have bar: "type ?b = WT_BAR" by blast
  from inst have wids: "map wid (submitted (hist pi)) = [0..<length (submitted (hist pi))]"
    by blast
  from inst sp obtain pi0 where le: "pending pi0 \<le> length (submitted ?pre)"
    and imp: "pending pi0 < 2 ^ 32 \<longrightarrow>
       (\<forall>w. EvSubmit w \<in> set ?pre \<and> wid w < wid ?b \<and> WT_ORD1 \<le> type w \<longrightarrow>
             (\<exists>t. EvWorkDone t w \<in> set ?pre))"
    by blast
  have "length (submitted ?pre) = 2" by simp
  with le have "pending pi0 < 2 ^ 32" by simp
  with imp have "EvSubmit ?w \<in> set ?pre \<and> wid ?w < wid ?b \<and> WT_ORD1 \<le> type ?w \<longrightarrow>
      (\<exists>t. EvWorkDone t ?w \<in> set ?pre)"
    by blast
  then have fin: "\<exists>t. EvWorkDone t ?w \<in> set ?pre" by (simp add: WT_ORD1_def)
  from r re sp bar fin wids show ?thesis by blast
qed

text \<open>
  Claim C1 as it is stated fails for unordered items. In the first run an unordered item is
  submitted before a barrier; the planner hands it to worker 0 and then frees the barrier
  in one pass with the mutex held: the item has neither begun nor completed when the
  barrier resolves. In the second run an unordered item is submitted after a barrier that
  waits for an ordered item; the planner hands it to worker 1, whose work callback begins
  while the barrier is still at the head of the ordered queue.
\<close>

theorem barrier_does_not_wait_for_unordered:
  "(\<exists>pi. run run_unord_before_bar (pool_init None) = Inr pi \<and> reachable None pi \<and>
      hist pi = [EvSubmit \<lparr>wid = 0, type = WT_UNORD, thread_id = 0\<rparr>,
                 EvSubmit \<lparr>wid = 1, type = WT_BAR, thread_id = 0\<rparr>,
                 EvDispatch \<lparr>wid = 0, type = WT_UNORD, thread_id = 0\<rparr>,
                 EvBarFree \<lparr>wid = 1, type = WT_BAR, thread_id = 0\<rparr>]) \<and>
   (\<exists>pi. run run_unord_after_bar (pool_init None) = Inr pi \<and> reachable None pi \<and>
      hist pi = [EvSubmit \<lparr>wid = 0, type = WT_ORD1, thread_id = 0\<rparr>,
                 EvSubmit \<lparr>wid = 1, type = WT_BAR, thread_id = 0\<rparr>,
                 EvDispatch \<lparr>wid = 0, type = WT_ORD1, thread_id = 0\<rparr>,
                 EvSubmit \<lparr>wid = 2, type = WT_UNORD, thread_id = 1\<rparr>,
                 EvDispatch \<lparr>wid = 2, type = WT_UNORD, thread_id = 1\<rparr>,
                 EvWorkCb 1 \<lparr>wid = 2, type = WT_UNORD, thread_id = 1\<rparr>] \<and>
      ordered pi = [\<lparr>wid = 1, type = WT_BAR, thread_id = 0\<rparr>] \<and> planner_sm pi = PS_BARRIER) \<and>
   \<not> (\<forall>pi pre B post w. reachable None pi \<and> hist pi = pre @ EvBarFree B # post \<and>
         EvSubmit w \<in> set pre \<and> wid w < wid B \<longrightarrow> (\<exists>t. EvWorkDone t w \<in> set pre))"
proof -
  from ex_unord_before_bar obtain p1 where
    r1: "run run_unord_before_bar (pool_init None) = Inr p1"
    and h1: "hist p1 = [EvSubmit \<lparr>wid = 0, type = 0, thread_id = 0\<rparr>,
                EvSubmit \<lparr>wid = 1, type = 1, thread_id = 0\<rparr>,
                EvDispatch \<lparr>wid = 0, type = 0, thread_id = 0\<rparr>,
                EvBarFree \<lparr>wid = 1, type = 1, thread_id = 0\<rparr>]"
    by blast
  from ex_unord_after_bar obtain p2 where
    r2: "run run_unord_after_bar (pool_init None) = Inr p2"
    and h2: "hist p2 = [EvSubmit \<lparr>wid = 0, type = 2, thread_id = 0\<rparr>,
                EvSubmit \<lparr>wid = 1, type = 1, thread_id = 0\<rparr>,
                EvDispatch \<lparr>wid = 0, type = 2, thread_id = 0\<rparr>,
                EvSubmit \<lparr>wid = 2, type = 0, thread_id = 1\<rparr>,
                EvDispatch \<lparr>wid = 2, type = 0, thread_id = 1\<rparr>,
                EvWorkCb 1 \<lparr>wid = 2, type = 0, thread_id = 1\<rparr>]"
    and o2: "ordered p2 = [\<lparr>wid = 1, type = 1, thread_id = 0\<rparr>]"
    and s2: "planner_sm p2 = PS_BARRIER"
    by blast
  note re1 = run_reachable_init [OF r1] and re2 = run_reachable_init [OF r2]
  have a: "\<exists>pi. run run_unord_before_bar (pool_init None) = Inr pi \<and> reachable None pi \<and>
      hist pi = [EvSubmit \<lparr>wid = 0, type = WT_UNORD, thread_id = 0\<rparr>,
                 EvSubmit \<lparr>wid = 1, type = WT_BAR, thread_id = 0\<rparr>,
                 EvDispatch \<lparr>wid = 0, type = WT_UNORD, thread_id = 0\<rparr>,
                 EvBarFree \<lparr>wid = 1, type = WT_BAR, thread_id = 0\<rparr>]"
    using r1 re1 h1 by (auto simp: WT_UNORD_def WT_BAR_def)
  have b: "\<exists>pi. run run_unord_after_bar (pool_init None) = Inr pi \<and> reachable None pi \<and>
      hist pi = [EvSubmit \<lparr>wid = 0, type = WT_ORD1, thread_id = 0\<rparr>,
                 EvSubmit \<lparr>wid = 1, type = WT_BAR, thread_id = 0\<rparr>,
                 EvDispatch \<lparr>wid = 0, type = WT_ORD1, thread_id = 0\<rparr>,
                 EvSubmit \<lparr>wid = 2, type = WT_UNORD, thread_id = 1\<rparr>,
                 EvDispatch \<lparr>wid = 2, type = WT_UNORD, thread_id = 1\<rparr>,
                 EvWorkCb 1 \<lparr>wid = 2, type = WT_UNORD, thread_id = 1\<rparr>] \<and>
      ordered pi = [\<lparr>wid = 1, type = WT_BAR, thread_id = 0\<rparr>] \<and> planner_sm pi = PS_BARRIER"
    using r2 re2 h2 o2 s2 by (auto simp: WT_UNORD_def WT_BAR_def WT_ORD1_def)
  have c: "\<not> (\<forall>pi pre B post w. reachable None pi \<and> hist pi = pre @ EvBarFree B # post \<and>
         EvSubmit w \<in> set pre \<and> wid w < wid B \<longrightarrow> (\<exists>t. EvWorkDone t w \<in> set pre))"
  proof
    assume all: "\<forall>pi pre B post w. reachable None pi \<and> hist pi = pre @ EvBarFree B # post \<and>
         EvSubmit w \<in> set pre \<and> wid w < wid B \<longrightarrow> (\<exists>t. EvWorkDone t w \<in> set pre)"
    have "hist p1 = [EvSubmit \<lparr>wid = 0, type = 0, thread_id = 0\<rparr>,
                EvSubmit \<lparr>wid = 1, type = 1, thread_id = 0\<rparr>,
                EvDispatch \<lparr>wid = 0, type = 0, thread_id = 0\<rparr>] @
                EvBarFree \<lparr>wid = 1, type = 1, thread_id = 0\<rparr> # []"
      by (simp add: h1)
    with all re1 have "\<exists>t. EvWorkDone t \<lparr>wid = 0, type = 0, thread_id = 0\<rparr> \<in>
        set [EvSubmit \<lparr>wid = 0, type = 0, thread_id = 0\<rparr>,
                EvSubmit \<lparr>wid = 1, type = 1, thread_id = 0\<rparr>,
                EvDispatch \<lparr>wid = 0, type = 0, thread_id = 0\<rparr>]"
      by (elim allE [where x = p1] allE [where x = "[EvSubmit \<lparr>wid = 0, type = 0, thread_id = 0\<rparr>,
                EvSubmit \<lparr>wid = 1, type = 1, thread_id = 0\<rparr>,
                EvDispatch \<lparr>wid = 0, type = 0, thread_id = 0\<rparr>]"]
          allE [where x = "\<lparr>wid = 1, type = 1, thread_id = 0\<rparr>"] allE [where x = "[]"]
          allE [where x = "\<lparr>wid = 0, type = 0, thread_id = 0\<rparr>"]) simp
    then show False by simp
  qed
  from a b c show ?thesis by blast
qed

text \<open>
  Claim C2, as amended. Take two strictly ordered items (type \<open>WT_ORD1\<close> or above) that are
  assigned to the same worker, the first submitted before the second: when the work
  callback of the second is called, that of the first has been called and has returned.
  On one worker, work callbacks do not overlap, and the callbacks of strictly ordered items
  are called in the order of submission. The worker that calls the callback of an item is
  \<open>cookie mod N\<close>: \<open>pool_queue_work\<close> sets \<open>thread_id\<close> to that, and only worker \<open>thread_id\<close>
  calls the callback. Nothing orders two items of one class whose cookies differ modulo
  \<open>N\<close>.
\<close>

theorem ordered_items_run_in_order_on_their_worker:
  assumes "reachable val pi"
  shows
    "(\<forall>h1 h3 t w1 w2. hist pi = h1 @ EvWorkCb t w2 # h3 \<and> EvSubmit w1 \<in> set (hist pi) \<and>
        WT_ORD1 \<le> type w1 \<and> WT_ORD1 \<le> type w2 \<and> thread_id w1 = thread_id w2 \<and>
        wid w1 < wid w2 \<longrightarrow>
        EvWorkCb t w1 \<in> set h1 \<and> EvWorkDone t w1 \<in> set h1) \<and>
     (\<forall>h1 h2 h3 t w1 w2. hist pi = h1 @ EvWorkCb t w1 # h2 @ EvWorkCb t w2 # h3 \<longrightarrow>
        EvWorkDone t w1 \<in> set h2 \<and>
        (WT_ORD1 \<le> type w1 \<and> WT_ORD1 \<le> type w2 \<longrightarrow> wid w1 < wid w2)) \<and>
     (\<forall>t w. EvWorkCb t w \<in> set (hist pi) \<longrightarrow>
        t = unat (thread_id w) \<and> t < unat (nthreads pi) \<and> EvSubmit w \<in> set (hist pi)) \<and>
     (\<forall>w cookie pi'. pool_queue_work pi w cookie = Inr pi' \<longrightarrow>
        hist pi' = hist pi @ [EvSubmit (w\<lparr>thread_id := cookie mod nthreads pi\<rparr>)]) \<and>
     nthreads pi = pool_threads_init_nthreads val \<and>
     map wid (submitted (hist pi)) = [0..<length (submitted (hist pi))]"
proof -
  note inv = reachable_inv [OF assms]
  have 0: "EvWorkCb t w1 \<in> set h1 \<and> EvWorkDone t w1 \<in> set h1"
    if "hist pi = h1 @ EvWorkCb t w2 # h3" "EvSubmit w1 \<in> set (hist pi)"
      "WT_ORD1 \<le> type w1" "WT_ORD1 \<le> type w2" "thread_id w1 = thread_id w2" "wid w1 < wid w2"
    for h1 h3 t w1 w2
  proof -
    from that(3,4) have o: "is_ord w1" "is_ord w2" by (simp_all add: is_ord_def)
    from that(5) have s: "unat (thread_id w1) = unat (thread_id w2)" by simp
    from earlier_ordered_item_finished [OF assms that(1,2) o s that(6)] show ?thesis .
  qed
  have 1: "EvWorkDone t w1 \<in> set h2 \<and>
      (WT_ORD1 \<le> type w1 \<and> WT_ORD1 \<le> type w2 \<longrightarrow> wid w1 < wid w2)"
    if "hist pi = h1 @ EvWorkCb t w1 # h2 @ EvWorkCb t w2 # h3" for h1 h2 h3 t w1 w2
    using callbacks_do_not_overlap [OF assms that]
      callbacks_in_submission_order [OF assms that]
    by (simp add: is_ord_def)
  have 2: "t = unat (thread_id w) \<and> t < unat (nthreads pi) \<and> EvSubmit w \<in> set (hist pi)"
    if "EvWorkCb t w \<in> set (hist pi)" for t w
    using started_on_its_worker [OF assms that] by simp
  have 3: "hist pi' = hist pi @ [EvSubmit (w\<lparr>thread_id := cookie mod nthreads pi\<rparr>)]"
    if "pool_queue_work pi w cookie = Inr pi'" for w cookie pi'
    unfolding pool_queue_work_Inr [OF that] by simp
  have 4: "nthreads pi = pool_threads_init_nthreads val"
    and 5: "map wid (submitted (hist pi)) = [0..<length (submitted (hist pi))]"
    using inv by (simp_all add: pool_inv_def)
  from 0 have g0: "\<forall>h1 h3 t w1 w2. hist pi = h1 @ EvWorkCb t w2 # h3 \<and>
        EvSubmit w1 \<in> set (hist pi) \<and> WT_ORD1 \<le> type w1 \<and> WT_ORD1 \<le> type w2 \<and>
        thread_id w1 = thread_id w2 \<and> wid w1 < wid w2 \<longrightarrow>
        EvWorkCb t w1 \<in> set h1 \<and> EvWorkDone t w1 \<in> set h1"
    by blast
  from 1 have g1: "\<forall>h1 h2 h3 t w1 w2. hist pi = h1 @ EvWorkCb t w1 # h2 @ EvWorkCb t w2 # h3 \<longrightarrow>
        EvWorkDone t w1 \<in> set h2 \<and>
        (WT_ORD1 \<le> type w1 \<and> WT_ORD1 \<le> type w2 \<longrightarrow> wid w1 < wid w2)"
    by blast
  from 2 3 have 23: "(\<forall>t w. EvWorkCb t w \<in> set (hist pi) \<longrightarrow>
        t = unat (thread_id w) \<and> t < unat (nthreads pi) \<and> EvSubmit w \<in> set (hist pi)) \<and>
     (\<forall>w cookie pi'. pool_queue_work pi w cookie = Inr pi' \<longrightarrow>
        hist pi' = hist pi @ [EvSubmit (w\<lparr>thread_id := cookie mod nthreads pi\<rparr>)])"
    by blast
  from g0 g1 23 4 5 show ?thesis by (intro conjI) (elim conjE, assumption)+
qed

theorem ordered_items_run_in_order_on_their_worker_witness:
  "\<exists>pi. run run_one_worker (pool_init None) = Inr pi \<and> reachable None pi \<and>
     hist pi = [EvSubmit \<lparr>wid = 0, type = 2, thread_id = 0\<rparr>,
                EvSubmit \<lparr>wid = 1, type = 2, thread_id = 0\<rparr>,
                EvDispatch \<lparr>wid = 0, type = 2, thread_id = 0\<rparr>,
                EvDispatch \<lparr>wid = 1, type = 2, thread_id = 0\<rparr>,
                EvWorkCb 0 \<lparr>wid = 0, type = 2, thread_id = 0\<rparr>,
                EvWorkDone 0 \<lparr>wid = 0, type = 2, thread_id = 0\<rparr>] @
               EvWorkCb 0 \<lparr>wid = 1, type = 2, thread_id = 0\<rparr> # [] \<and>
     EvSubmit \<lparr>wid = 0, type = 2, thread_id = 0\<rparr> \<in> set (hist pi) \<and>
     WT_ORD1 \<le> type \<lparr>wid = 0, type = 2, thread_id = (0::u32)\<rparr> \<and>
     wid \<lparr>wid = 0, type = 2, thread_id = (0::u32)\<rparr> < wid \<lparr>wid = 1, type = 2, thread_id = (0::u32)\<rparr> \<and>
     EvWorkDone 0 \<lparr>wid = 0, type = 2, thread_id = 0\<rparr> \<in>
       set [EvSubmit \<lparr>wid = 0, type = 2, thread_id = 0\<rparr>,
            EvSubmit \<lparr>wid = 1, type = 2, thread_id = 0\<rparr>,
            EvDispatch \<lparr>wid = 0, type = 2, thread_id = 0\<rparr>,
            EvDispatch \<lparr>wid = 1, type = 2, thread_id = 0\<rparr>,
            EvWorkCb 0 \<lparr>wid = 0, type = 2, thread_id = 0\<rparr>,
            EvWorkDone 0 \<lparr>wid = 0, type = 2, thread_id = 0\<rparr>] \<and>
     nthreads pi = pool_threads_init_nthreads None"
proof -
  let ?w1 = "\<lparr>wid = 0, type = 2, thread_id = (0::u32)\<rparr>"
  let ?w2 = "\<lparr>wid = 1, type = 2, thread_id = (0::u32)\<rparr>"
  let ?h1 = "[EvSubmit ?w1, EvSubmit ?w2, EvDispatch ?w1, EvDispatch ?w2, EvWorkCb 0 ?w1,
              EvWorkDone 0 ?w1]"
  from ex_one_worker obtain pi where
    r: "run run_one_worker (pool_init None) = Inr pi"
    and h: "hist pi = [EvSubmit ?w1, EvSubmit ?w2, EvDispatch ?w1, EvDispatch ?w2,
                       EvWorkCb 0 ?w1, EvWorkDone 0 ?w1, EvWorkCb 0 ?w2]"
    by blast
  have re: "reachable None pi" using run_reachable_init [OF r] .
  have sp: "hist pi = ?h1 @ EvWorkCb 0 ?w2 # []" by (simp add: h)
  have s: "EvSubmit ?w1 \<in> set (hist pi)" by (simp add: h)
  have o: "WT_ORD1 \<le> type ?w1" "WT_ORD1 \<le> type ?w2" by (simp_all add: WT_ORD1_def)
  have c: "thread_id ?w1 = thread_id ?w2" and l: "wid ?w1 < wid ?w2" by simp_all
  note inst = ordered_items_run_in_order_on_their_worker [OF re]
  from inst have "hist pi = ?h1 @ EvWorkCb 0 ?w2 # [] \<and> EvSubmit ?w1 \<in> set (hist pi) \<and>
        WT_ORD1 \<le> type ?w1 \<and> WT_ORD1 \<le> type ?w2 \<and> thread_id ?w1 = thread_id ?w2 \<and>
        wid ?w1 < wid ?w2 \<longrightarrow>
        EvWorkCb 0 ?w1 \<in> set ?h1 \<and> EvWorkDone 0 ?w1 \<in> set ?h1"
    by blast
  with sp s o c l have d: "EvWorkDone 0 ?w1 \<in> set ?h1" by blast
  from inst have n: "nthreads pi = pool_threads_init_nthreads None" by blast
  from r re sp s o(1) l d n show ?thesis by blast
qed

text \<open>
  Claim C2 as it is stated fails when two items of one ordered class have cookies that
  differ modulo \<open>N\<close>. With four workers, two \<open>WT_ORD1\<close> items are queued with cookies 0 and
  1; worker 1 calls the callback of the second item, and that callback returns, before
  worker 0 calls the callback of the first.
\<close>

theorem same_class_on_two_workers_out_of_order:
  "(\<exists>pi. run run_two_workers (pool_init None) = Inr pi \<and> reachable None pi \<and>
      hist pi = [EvSubmit \<lparr>wid = 0, type = WT_ORD1, thread_id = 0\<rparr>,
                 EvSubmit \<lparr>wid = 1, type = WT_ORD1, thread_id = 1\<rparr>,
                 EvDispatch \<lparr>wid = 0, type = WT_ORD1, thread_id = 0\<rparr>,
                 EvDispatch \<lparr>wid = 1, type = WT_ORD1, thread_id = 1\<rparr>,
                 EvWorkCb 1 \<lparr>wid = 1, type = WT_ORD1, thread_id = 1\<rparr>,
                 EvWorkDone 1 \<lparr>wid = 1, type = WT_ORD1, thread_id = 1\<rparr>,
                 EvWorkCb 0 \<lparr>wid = 0, type = WT_ORD1, thread_id = 0\<rparr>]) \<and>
   \<not> (\<forall>pi h1 h2 h3 t1 t2 w1 w2. reachable None pi \<and>
         hist pi = h1 @ EvWorkCb t1 w1 # h2 @ EvWorkCb t2 w2 # h3 \<and>
         WT_ORD1 \<le> type w1 \<and> type w2 = type w1 \<longrightarrow> wid w1 < wid w2)"
proof -
  from ex_two_workers obtain p where
    r: "run run_two_workers (pool_init None) = Inr p"
    and h: "hist p = [EvSubmit \<lparr>wid = 0, type = 2, thread_id = 0\<rparr>,
                EvSubmit \<lparr>wid = 1, type = 2, thread_id = 1\<rparr>,
                EvDispatch \<lparr>wid = 0, type = 2, thread_id = 0\<rparr>,
                EvDispatch \<lparr>wid = 1, type = 2, thread_id = 1\<rparr>,
                EvWorkCb 1 \<lparr>wid = 1, type = 2, thread_id = 1\<rparr>,
                EvWorkDone 1 \<lparr>wid = 1, type = 2, thread_id = 1\<rparr>,
                EvWorkCb 0 \<lparr>wid = 0, type = 2, thread_id = 0\<rparr>]"
    by blast
  note re = run_reachable_init [OF r]
  have a: "\<exists>pi. run run_two_workers (pool_init None) = Inr pi \<and> reachable None pi \<and>
      hist pi = [EvSubmit \<lparr>wid = 0, type = WT_ORD1, thread_id = 0\<rparr>,
                 EvSubmit \<lparr>wid = 1, type = WT_ORD1, thread_id = 1\<rparr>,
                 EvDispatch \<lparr>wid = 0, type = WT_ORD1, thread_id = 0\<rparr>,
                 EvDispatch \<lparr>wid = 1, type = WT_ORD1, thread_id = 1\<rparr>,
                 EvWorkCb 1 \<lparr>wid = 1, type = WT_ORD1, thread_id = 1\<rparr>,
                 EvWorkDone 1 \<lparr>wid = 1, type = WT_ORD1, thread_id = 1\<rparr>,
                 EvWorkCb 0 \<lparr>wid = 0, type = WT_ORD1, thread_id = 0\<rparr>]"
    using r re h by (auto simp: WT_ORD1_def)
  have b: "\<not> (\<forall>pi h1 h2 h3 t1 t2 w1 w2. reachable None pi \<and>
         hist pi = h1 @ EvWorkCb t1 w1 # h2 @ EvWorkCb t2 w2 # h3 \<and>
         WT_ORD1 \<le> type w1 \<and> type w2 = type w1 \<longrightarrow> wid w1 < wid w2)"
  proof
    assume all: "\<forall>pi h1 h2 h3 t1 t2 w1 w2. reachable None pi \<and>
         hist pi = h1 @ EvWorkCb t1 w1 # h2 @ EvWorkCb t2 w2 # h3 \<and>
         WT_ORD1 \<le> type w1 \<and> type w2 = type w1 \<longrightarrow> wid w1 < wid w2"
    have sp: "hist p = [EvSubmit \<lparr>wid = 0, type = 2, thread_id = 0\<rparr>,
                EvSubmit \<lparr>wid = 1, type = 2, thread_id = 1\<rparr>,
                EvDispatch \<lparr>wid = 0, type = 2, thread_id = 0\<rparr>,
                EvDispatch \<lparr>wid = 1, type = 2, thread_id = 1\<rparr>] @
                EvWorkCb 1 \<lparr>wid = 1, type = 2, thread_id = 1\<rparr> #
                [EvWorkDone 1 \<lparr>wid = 1, type = 2, thread_id = 1\<rparr>] @
                EvWorkCb 0 \<lparr>wid = 0, type = 2, thread_id = 0\<rparr> # []"
      by (simp add: h)
    from all [rule_format, OF conjI [OF re conjI [OF sp]]]
    have "wid \<lparr>wid = 1, type = 2, thread_id = (1::u32)\<rparr> < wid \<lparr>wid = 0, type = 2, thread_id = (0::u32)\<rparr>"
      by (simp add: WT_ORD1_def)
    then show False by simp
  qed
  from a b show ?thesis by blast
qed

text \<open>
  Claim C3, as amended. In every reachable state in which the planner is in \<open>PS_NOTHING\<close>,
  \<open>in_flight\<close> is, modulo \<open>2^32\<close>, the number of strictly ordered items that are with the
  workers (in an inbox, in their work callback, or back from it and not yet counted off):
  it is zero when there is none, and it need not be zero.
\<close>

theorem in_flight_counts_items_with_workers:
  assumes "reachable val pi" "planner_sm pi = PS_NOTHING"
  shows "in_flight pi = of_nat (pending pi) \<and> (pending pi = 0 \<longrightarrow> in_flight pi = 0) \<and>
         (in_flight pi = 0 \<and> length (submitted (hist pi)) < 2 ^ 32 \<longrightarrow> pending pi = 0)"
proof -
  note inv = reachable_inv [OF assms(1)]
  from inv have 1: "in_flight pi = of_nat (pending pi)" by (simp add: pool_inv_def)
  from pool_inv_pending_zero [OF inv] 1 show ?thesis by auto
qed

theorem in_flight_counts_items_with_workers_witness:
  "\<exists>pi. run run_ordered_then_nothing (pool_init None) = Inr pi \<and> reachable None pi \<and>
     planner_sm pi = PS_NOTHING \<and> pending pi = 1 \<and> in_flight pi = of_nat (pending pi)"
proof -
  from ex_ordered_then_nothing obtain pi where
    r: "run run_ordered_then_nothing (pool_init None) = Inr pi"
    and s: "planner_sm pi = PS_NOTHING" and p: "pending pi = 1"
    by blast
  have re: "reachable None pi" using run_reachable_init [OF r] .
  from in_flight_counts_items_with_workers [OF re s]
  have "in_flight pi = of_nat (pending pi)" by blast
  with r re s p show ?thesis by blast
qed

text \<open>
  Claim C3 as it is stated fails: after the planner has handed the only queued item, a
  \<open>WT_ORD1\<close> item, to worker 0, both queues are empty and the planner moves to \<open>PS_NOTHING\<close>
  with \<open>in_flight = 1\<close>; the item is still in the inbox of the worker.
\<close>

theorem in_flight_not_zero_in_nothing:
  "\<exists>pi. run [A_planner, A_queue_work WT_ORD1 0, A_planner_wakeup, A_planner, A_planner]
          (pool_init None) = Inr pi \<and>
     reachable None pi \<and> planner_sm pi = PS_NOTHING \<and> in_flight pi = 1 \<and>
     inq pi 0 = [\<lparr>wid = 0, type = WT_ORD1, thread_id = 0\<rparr>]"
proof -
  from ex_ordered_then_nothing obtain pi where
    r: "run run_ordered_then_nothing (pool_init None) = Inr pi"
    and s: "planner_sm pi = PS_NOTHING" and f: "in_flight pi = 1"
    and i: "inq pi 0 = [\<lparr>wid = 0, type = 2, thread_id = 0\<rparr>]"
    by blast
  have re: "reachable None pi" using run_reachable_init [OF r] .
  from r re s f i show ?thesis
    by (auto simp: run_ordered_then_nothing_def WT_ORD1_def)
qed

text \<open>
  Claim C4. \<open>pool_work_submit\<close> aborts exactly when the item has an ordered type
  (\<open>type > WT_UNORD\<close>) and the precondition \<open>prev != BAR && new != BAR\<close> implies
  \<open>prev == new\<close> fails, where \<open>prev\<close> is \<open>o_prev\<close>; under the precondition it does not abort.
  After a successful call \<open>o_prev\<close> is the type of the item when that type is ordered, and
  is unchanged otherwise; so in every reachable state \<open>o_prev\<close> is the type of the
  ordered-type item submitted last, or \<open>WT_BAR\<close> when there has been none.
\<close>

theorem pool_work_submit_precondition:
  "(pool_work_submit pi w = Inl Abort \<longleftrightarrow>
      WT_UNORD < type w \<and> \<not> (o_prev pi \<noteq> WT_BAR \<and> type w \<noteq> WT_BAR \<longrightarrow> o_prev pi = type w)) \<and>
   (pool_work_submit pi w = Inr pi' \<longrightarrow>
      o_prev pi' = (if WT_UNORD < type w then type w else o_prev pi)) \<and>
   (reachable val pi \<longrightarrow>
      o_prev pi =
        (if filter (\<lambda>w. WT_UNORD < type w) (submitted (hist pi)) = [] then WT_BAR
         else type (last (filter (\<lambda>w. WT_UNORD < type w) (submitted (hist pi))))))"
proof -
  have 1: "pool_work_submit pi w = Inl Abort \<longleftrightarrow>
      WT_UNORD < type w \<and> \<not> (o_prev pi \<noteq> WT_BAR \<and> type w \<noteq> WT_BAR \<longrightarrow> o_prev pi = type w)"
    by (auto simp: pool_work_submit_def Let_def)
  have 2: "o_prev pi' = (if WT_UNORD < type w then type w else o_prev pi)"
    if "pool_work_submit pi w = Inr pi'"
    using that by (auto simp: pool_work_submit_def Let_def WT_UNORD_def split: if_splits)
  have 3: "o_prev pi =
        (if filter (\<lambda>w. WT_UNORD < type w) (submitted (hist pi)) = [] then WT_BAR
         else type (last (filter (\<lambda>w. WT_UNORD < type w) (submitted (hist pi)))))"
    if "reachable val pi"
  proof -
    have "is_o = (\<lambda>w. WT_UNORD < type w)" by (simp add: is_o_def fun_eq_iff)
    with reachable_inv [OF that] show ?thesis by (simp add: pool_inv_def)
  qed
  from 1 2 3 show ?thesis by blast
qed

theorem pool_work_submit_precondition_witness:
  "\<exists>pi. run [A_planner, A_queue_work WT_ORD1 0] (pool_init None) = Inr pi \<and>
     reachable None pi \<and> o_prev pi = WT_ORD1 \<and>
     pool_work_submit pi \<lparr>wid = 1, type = 3, thread_id = 0\<rparr> = Inl Abort \<and>
     (\<exists>pi'. pool_work_submit pi \<lparr>wid = 1, type = WT_ORD1, thread_id = 0\<rparr> = Inr pi' \<and>
            o_prev pi' = WT_ORD1) \<and>
     (\<exists>pi'. pool_work_submit pi \<lparr>wid = 1, type = WT_BAR, thread_id = 0\<rparr> = Inr pi' \<and>
            o_prev pi' = WT_BAR)"
proof -
  from ex_submit_ord1 obtain pi where
    r: "run [A_planner, A_queue_work WT_ORD1 0] (pool_init None) = Inr pi"
    and o: "o_prev pi = 2" and at: "planner_at pi = P_WAIT"
    and s: "submitted (hist pi) = [\<lparr>wid = 0, type = 2, thread_id = 0\<rparr>]"
    by blast
  have re: "reachable None pi" using run_reachable_init [OF r] .
  have 0: "o_prev pi = WT_ORD1"
    using pool_work_submit_precondition [of pi _ _ None] re s
    by (simp add: WT_UNORD_def WT_ORD1_def)
  have 1: "pool_work_submit pi \<lparr>wid = 1, type = 3, thread_id = 0\<rparr> = Inl Abort"
    using pool_work_submit_precondition [of pi "\<lparr>wid = 1, type = 3, thread_id = 0\<rparr>"] o
    by (simp add: WT_UNORD_def WT_BAR_def)
  have "pool_work_submit pi \<lparr>wid = 1, type = WT_ORD1, thread_id = 0\<rparr> \<noteq> Inl Abort"
    using pool_work_submit_precondition [of pi "\<lparr>wid = 1, type = WT_ORD1, thread_id = 0\<rparr>"] o
    by (simp add: WT_UNORD_def WT_BAR_def WT_ORD1_def)
  then obtain p2 where p2: "pool_work_submit pi \<lparr>wid = 1, type = WT_ORD1, thread_id = 0\<rparr> = Inr p2"
    using at by (auto simp: pool_work_submit_def mutex_free_def Let_def split: if_splits)
  have 2: "o_prev p2 = WT_ORD1"
    using pool_work_submit_precondition [of pi "\<lparr>wid = 1, type = WT_ORD1, thread_id = 0\<rparr>" p2] p2
    by (simp add: WT_UNORD_def WT_ORD1_def)
  have "pool_work_submit pi \<lparr>wid = 1, type = WT_BAR, thread_id = 0\<rparr> \<noteq> Inl Abort"
    using pool_work_submit_precondition [of pi "\<lparr>wid = 1, type = WT_BAR, thread_id = 0\<rparr>"] o
    by (simp add: WT_UNORD_def WT_BAR_def WT_ORD1_def)
  then obtain p3 where p3: "pool_work_submit pi \<lparr>wid = 1, type = WT_BAR, thread_id = 0\<rparr> = Inr p3"
    using at by (auto simp: pool_work_submit_def mutex_free_def Let_def split: if_splits)
  have 3: "o_prev p3 = WT_BAR"
    using pool_work_submit_precondition [of pi "\<lparr>wid = 1, type = WT_BAR, thread_id = 0\<rparr>" p3] p3
    by (simp add: WT_UNORD_def WT_BAR_def)
  from r re 0 1 p2 2 p3 3 show ?thesis by blast
qed

text \<open>
  Claim C5. At pool initialisation the number of worker threads is the default 4 when
  \<open>POOL_THREADPOOL_SIZE\<close> is not set; when it is set, a parsed value of 0 becomes 1, a
  parsed value above 1024 becomes 1024, and a parsed value from 1 to 1024 is taken as it
  is. \<open>POOL_THREADPOOL_SIZE=10000\<close> yields 1024 threads and \<open>POOL_THREADPOOL_SIZE=0\<close>
  yields 1.
\<close>

theorem pool_threads_init_nthreads_clamp:
  "pool_threads_init_nthreads None = 4 \<and>
   (sint (atoi val) = 0 \<longrightarrow> pool_threads_init_nthreads (Some val) = 1) \<and>
   (1024 < sint (atoi val) \<longrightarrow> pool_threads_init_nthreads (Some val) = 1024) \<and>
   (1 \<le> sint (atoi val) \<and> sint (atoi val) \<le> 1024 \<longrightarrow>
      uint (pool_threads_init_nthreads (Some val)) = sint (atoi val)) \<and>
   pool_threads_init_nthreads (Some ''10000'') = 1024 \<and>
   pool_threads_init_nthreads (Some ''0'') = 1"
proof -
  have none: "pool_threads_init_nthreads None = 4"
    by (simp add: nthreads_defs)
  have zero: "pool_threads_init_nthreads (Some val) = 1" if "sint (atoi val) = 0"
  proof -
    from that have "uint (atoi val) = 0"
      using uint_sint32_nonneg [of "atoi val"] by simp
    then have "atoi val = 0" by (simp add: uint_0_iff)
    then show ?thesis by (simp add: nthreads_defs)
  qed
  have big: "pool_threads_init_nthreads (Some val) = 1024" if "1024 < sint (atoi val)"
  proof -
    from that have "uint (atoi val) = sint (atoi val)"
      by (intro uint_sint32_nonneg) simp
    with that have "1024 < atoi val" by (simp add: word_less_def)
    moreover from this have "atoi val \<noteq> 0" by auto
    ultimately show ?thesis by (simp add: nthreads_defs)
  qed
  have mid: "uint (pool_threads_init_nthreads (Some val)) = sint (atoi val)"
    if "1 \<le> sint (atoi val) \<and> sint (atoi val) \<le> 1024"
  proof -
    from that have u: "uint (atoi val) = sint (atoi val)"
      by (intro uint_sint32_nonneg) simp
    with that have "\<not> 1024 < atoi val" by (simp add: word_less_def)
    moreover from u that have "atoi val \<noteq> 0" by auto
    ultimately show ?thesis using u by (simp add: nthreads_defs)
  qed
  have ex1: "pool_threads_init_nthreads (Some ''10000'') = 1024"
    by (simp add: nthreads_defs atoi_defs)
  have ex2: "pool_threads_init_nthreads (Some ''0'') = 1"
    by (simp add: nthreads_defs atoi_defs)
  from none zero big mid ex1 ex2 show ?thesis by blast
qed

theorem pool_threads_init_nthreads_clamp_witness:
  "sint (atoi ''0'') = 0 \<and> pool_threads_init_nthreads (Some ''0'') = 1 \<and>
   1024 < sint (atoi ''2000'') \<and> pool_threads_init_nthreads (Some ''2000'') = 1024 \<and>
   1 \<le> sint (atoi ''7'') \<and> sint (atoi ''7'') \<le> 1024 \<and>
   uint (pool_threads_init_nthreads (Some ''7'')) = 7"
proof -
  have a: "sint (atoi ''0'') = 0" by (simp add: atoi_defs)
  have b: "1024 < sint (atoi ''2000'')" by (simp add: atoi_defs)
  have c: "sint (atoi ''7'') = 7" by (simp add: atoi_defs)
  show ?thesis
    using a b c pool_threads_init_nthreads_clamp [of "''0''"]
      pool_threads_init_nthreads_clamp [of "''2000''"]
      pool_threads_init_nthreads_clamp [of "''7''"]
    by simp
qed

text \<open>
  Claim C6. In the gateway of the test (the VFS \<open>volatile\<close> is registered), an OPEN request
  with name \<open>test.db\<close>, VFS \<open>volatile\<close> and the flags \<open>SQLITE_OPEN_CREATE\<close> alone is handled
  without a handler error (the error code is 0), and the response is a \<open>DB_ERROR\<close> whose
  code and extended code are 21 (\<open>SQLITE_MISUSE\<close>) and whose description is
  \<open>bad parameter or other API misuse\<close>.
\<close>

theorem gateway_open_create_only_is_misuse:
  "gateway_handle_open test_gateway
     \<lparr>name = ''test.db'', flags = SQLITE_OPEN_CREATE, vfs = ''volatile''\<rparr> =
   (0, DQLITE_DB_ERROR 21 21 ''bad parameter or other API misuse'', test_gateway) \<and>
   SQLITE_MISUSE = 21"
  by (simp add: gw_defs Let_def)

text \<open>
  Claim C7. When the statement of a QUERY returns the single row of one integer column
  with the value -12, the body of the ROWS response is 16 bytes, two 8-byte words: a header
  word that is 1 (\<open>SQLITE_INTEGER\<close> in its low byte), and the little-endian \<open>int64\<close> -12.
\<close>

theorem query_single_integer_row:
  "\<exists>body. rows_body [[V_INTEGER (- 12)]] = Some body \<and> length body = 16 \<and>
     get_uint64 (take 8 body) = 1 \<and>
     take_bit 8 (get_uint64 (take 8 body)) = of_nat SQLITE_INTEGER \<and>
     sint (get_uint64 (drop 8 body)) = - 12 \<and>
     body = [1, 0, 0, 0, 0, 0, 0, 0, 244, 255, 255, 255, 255, 255, 255, 255]"
  by (simp add: put_row_def put_uint64_def get_uint64_def SQLITE_INTEGER_def upt8)





text \<open>
  Claim C10. When \<open>POOL_THREADPOOL_SIZE\<close> parses to a negative integer, the cast of
  \<open>atoi\<close>'s result to \<open>uint32_t\<close> is the value plus \<open>2^32\<close>, which is above 1024, so the
  thread count is the maximum 1024 and not the minimum 1. For \<open>"-1"\<close> the cast gives
  4294967295.
\<close>

theorem pool_threads_init_nthreads_negative:
  "(sint (atoi val) < 0 \<longrightarrow>
      uint (atoi val) = sint (atoi val) + 2 ^ 32 \<and> 1024 < atoi val \<and>
      pool_threads_init_nthreads (Some val) = 1024) \<and>
   sint (atoi ''-1'') = - 1 \<and> atoi ''-1'' = 4294967295 \<and>
   pool_threads_init_nthreads (Some ''-1'') = 1024"
proof -
  have neg: "uint (atoi val) = sint (atoi val) + 2 ^ 32 \<and> 1024 < atoi val \<and>
      pool_threads_init_nthreads (Some val) = 1024" if "sint (atoi val) < 0"
  proof -
    from that have u: "uint (atoi val) = sint (atoi val) + 2 ^ 32"
      by (rule uint_sint32_neg)
    with sint32_bounds [of "atoi val"] have gt: "1024 < atoi val"
      by (simp add: word_less_def)
    then have "atoi val \<noteq> 0" by auto
    with u gt show ?thesis by (simp add: nthreads_defs)
  qed
  have e1: "atoi ''-1'' = 4294967295" by (simp add: atoi_defs)
  have e2: "sint (atoi ''-1'') = - 1" by (simp add: e1)
  have e3: "pool_threads_init_nthreads (Some ''-1'') = 1024"
    by (simp add: nthreads_defs e1)
  from neg e1 e2 e3 show ?thesis by blast
qed

theorem pool_threads_init_nthreads_negative_witness:
  "sint (atoi ''-37'') < 0 \<and> uint (atoi ''-37'') = 4294967259 \<and> 1024 < atoi ''-37'' \<and>
   pool_threads_init_nthreads (Some ''-37'') = 1024"
proof -
  have a: "sint (atoi ''-37'') = - 37" by (simp add: atoi_defs)
  show ?thesis
    using a pool_threads_init_nthreads_negative [of "''-37''"] by simp
qed

section \<open>Further properties of the pool\<close>

text \<open>
  The thread count that \<open>pool_threads_init\<close> computes is between 1 and 1024, whatever the
  environment holds.
\<close>

theorem pool_threads_init_nthreads_range:
  "1 \<le> pool_threads_init_nthreads val \<and> pool_threads_init_nthreads val \<le> 1024"
proof -
  have "1 \<le> x" if "x \<noteq> 0" for x :: u32
    using that by (simp add: word_le_def uint_0_iff) (metis uint_0_iff uint_nonnegative
        order_less_le zle_diff1_eq diff_ge_0_iff_ge)
  then show ?thesis
    by (auto simp add: nthreads_defs Let_def split: option.splits)
qed

text \<open>
  In every reachable state, whatever the planner's state, \<open>in_flight\<close> is the number of
  strictly ordered items with the workers modulo \<open>2^32\<close>, and these items together with the
  queued ones are at most as many as the submissions.
\<close>

theorem in_flight_is_pending:
  assumes "reachable val pi"
  shows "in_flight pi = of_nat (pending pi) \<and>
         pending pi + length (ordered pi) + length (unordered pi) \<le> length (submitted (hist pi))"
  using reachable_inv [OF assms] by (simp add: pool_inv_def)

theorem in_flight_is_pending_witness:
  "\<exists>pi. run run_ordered_then_nothing (pool_init None) = Inr pi \<and> reachable None pi \<and>
     pending pi = 1 \<and> in_flight pi = of_nat (pending pi)"
proof -
  from ex_ordered_then_nothing obtain pi where
    r: "run run_ordered_then_nothing (pool_init None) = Inr pi" and p: "pending pi = 1"
    by blast
  have re: "reachable None pi" using run_reachable_init [OF r] .
  from in_flight_is_pending [OF re] r re p show ?thesis by blast
qed

text \<open>
  The assertion \<open>assert(pi->in_flight > 0)\<close> of the worker (line 331) holds whenever a worker
  reaches it, as long as fewer than \<open>2^32\<close> items have been submitted: the worker then
  decrements \<open>in_flight\<close> and goes back to the top of its loop.
\<close>

theorem worker_assert_in_flight_holds:
  assumes "reachable val pi" "idx < unat (nthreads pi)" "worker_at pi idx = W_POST wtype"
    "WT_BAR < wtype" "length (submitted (hist pi)) < 2 ^ 32" "mutex_free pi"
  shows "0 < in_flight pi \<and>
         worker idx pi = Inr (pi\<lparr>in_flight := in_flight pi - 1,
                                 worker_at := (worker_at pi)(idx := W_TOP)\<rparr>)"
proof -
  note inv = reachable_inv [OF assms(1)]
  have "in_flight pi \<noteq> 0"
  proof
    assume "in_flight pi = 0"
    from pool_inv_pending_zero [OF inv this assms(5)]
    have "pending_of (unat (nthreads pi)) (inq pi) (worker_at pi) = 0"
      by (simp add: pending_def)
    from pending_of_zero [OF this assms(2)] assms(3,4) show False by simp
  qed
  then have "0 < in_flight pi" by (simp add: word_neq_0_conv)
  with assms show ?thesis by (simp add: worker_def worker_post_def)
qed

lemma ex_worker_at_post:
  "\<exists>pi. run (take 9 run_bar_after_ordered) (pool_init None) = Inr pi \<and>
     worker_at pi 0 = W_POST 2 \<and> nthreads pi = 4 \<and> mutex_free pi \<and> in_flight pi = 1 \<and>
     length (submitted (hist pi)) = 2"
  by (simp add: run_bar_after_ordered_def pool_defs submitted_def)

theorem worker_assert_in_flight_holds_witness:
  "\<exists>pi. run (take 9 run_bar_after_ordered) (pool_init None) = Inr pi \<and> reachable None pi \<and>
     (0::nat) < unat (nthreads pi) \<and> worker_at pi 0 = W_POST 2 \<and> WT_BAR < 2 \<and>
     length (submitted (hist pi)) < 2 ^ 32 \<and> mutex_free pi \<and> 0 < in_flight pi \<and>
     worker 0 pi = Inr (pi\<lparr>in_flight := in_flight pi - 1,
                           worker_at := (worker_at pi)(0 := W_TOP)\<rparr>)"
proof -
  from ex_worker_at_post obtain pi where
    r: "run (take 9 run_bar_after_ordered) (pool_init None) = Inr pi"
    and w: "worker_at pi 0 = W_POST 2" and n: "nthreads pi = 4" and m: "mutex_free pi"
    and l: "length (submitted (hist pi)) = 2"
    by blast
  have re: "reachable None pi" using run_reachable_init [OF r] .
  have i: "(0::nat) < unat (nthreads pi)" by (simp add: n)
  have b: "WT_BAR < 2" by (simp add: WT_BAR_def)
  have l': "length (submitted (hist pi)) < 2 ^ 32" by (simp add: l)
  from worker_assert_in_flight_holds [OF re i w b l' m] r re i w b l' m
  show ?thesis by blast
qed

text \<open>
  Every queue of the pool is first in, first out. In every reachable state the items
  submitted with an ordered type are, in the order of submission, those that have left the
  ordered queue followed by those on it, and likewise for the unordered queue; the items
  sent to a worker are those it has started followed by its inbox; and the items whose work
  is done are those \<open>queue_done\<close> has seen followed by the local queue of \<open>work_done\<close> and
  the output queue.
\<close>

theorem queues_are_fifo:
  assumes "reachable val pi"
  shows "filter is_o (submitted (hist pi)) = pick ev_taken_o (hist pi) @ ordered pi \<and>
         filter (\<lambda>w. \<not> is_o w) (submitted (hist pi)) = pick ev_taken_u (hist pi) @ unordered pi \<and>
         (\<forall>t. pick (ev_sent_to t) (hist pi) = pick (ev_started_on t) (hist pi) @ inq pi t) \<and>
         pick ev_finished (hist pi) = pick ev_afterworked (hist pi) @ doneq pi @ outq pi"
  using reachable_inv [OF assms] by (simp add: pool_inv_def)

theorem queues_are_fifo_witness:
  "\<exists>pi. run run_two_workers (pool_init None) = Inr pi \<and> reachable None pi \<and>
     filter is_o (submitted (hist pi)) = pick ev_taken_o (hist pi) @ ordered pi \<and>
     submitted (hist pi) =
       [\<lparr>wid = 0, type = 2, thread_id = 0\<rparr>, \<lparr>wid = 1, type = 2, thread_id = 1\<rparr>]"
proof -
  from ex_two_workers obtain pi where
    r: "run run_two_workers (pool_init None) = Inr pi"
    and h: "hist pi = [EvSubmit \<lparr>wid = 0, type = 2, thread_id = 0\<rparr>,
                EvSubmit \<lparr>wid = 1, type = 2, thread_id = 1\<rparr>,
                EvDispatch \<lparr>wid = 0, type = 2, thread_id = 0\<rparr>,
                EvDispatch \<lparr>wid = 1, type = 2, thread_id = 1\<rparr>,
                EvWorkCb 1 \<lparr>wid = 1, type = 2, thread_id = 1\<rparr>,
                EvWorkDone 1 \<lparr>wid = 1, type = 2, thread_id = 1\<rparr>,
                EvWorkCb 0 \<lparr>wid = 0, type = 2, thread_id = 0\<rparr>]"
    by blast
  have re: "reachable None pi" using run_reachable_init [OF r] .
  have s: "submitted (hist pi) =
       [\<lparr>wid = 0, type = 2, thread_id = 0\<rparr>, \<lparr>wid = 1, type = 2, thread_id = 1\<rparr>]"
    by (simp add: h)
  from queues_are_fifo [OF re] r re s show ?thesis by blast
qed

text \<open>
  The assertions and preconditions inside the pool hold on their own. As long as fewer
  than \<open>2^32\<close> items have been submitted, a step from a reachable state aborts in two cases
  only: the loop thread queues an item of an ordered type other than that of the last
  ordered item, neither being a barrier (the precondition of \<open>pool_work_submit\<close>); or the
  planner finds \<open>exiting\<close> set in \<open>PS_NOTHING\<close> while an item is still queued (the invariant
  of \<open>PS_EXITED\<close>). No other \<open>PRE\<close>, \<open>assert\<close> or invariant of the state machine fails, no
  empty queue is popped, and no item is sent to an inbox outside the array of threads.
\<close>

theorem pool_aborts_only_by_contract:
  assumes re: "reachable val pi" and b: "length (submitted (hist pi)) < 2 ^ 32"
    and s: "step a pi = Inl Abort"
  shows "(\<exists>wtype cookie. a = A_queue_work wtype cookie \<and> WT_UNORD < wtype \<and>
            o_prev pi \<noteq> WT_BAR \<and> wtype \<noteq> WT_BAR \<and> o_prev pi \<noteq> wtype) \<or>
         (a = A_planner \<and> planner_sm pi = PS_NOTHING \<and> exiting pi \<and>
            (ordered pi \<noteq> [] \<or> unordered pi \<noteq> []))"
proof -
  note inv = reachable_inv [OF re]
  from inv have n: "nthreads pi = pool_threads_init_nthreads val" by (simp add: pool_inv_def)
  with pool_threads_init_nthreads_nonzero [of val] have nz: "nthreads pi \<noteq> 0" by simp
  show ?thesis
  proof (cases a)
    case (A_queue_work wtype cookie)
    with s have "pool_queue_work pi (new_work pi wtype) cookie = Inl Abort" by simp
    from pool_queue_work_Inl [OF nz this] A_queue_work show ?thesis
      by (simp add: new_work_def)
  next
    case A_work_done
    with s show ?thesis by (simp add: work_done_def split: if_splits)
  next
    case A_queue_done
    with s queue_done_Inl [OF inv b, of Abort] show ?thesis by simp
  next
    case A_cleanup
    with s show ?thesis by simp
  next
    case A_planner
    with s have "planner pi = Inl Abort" by (simp split: if_splits)
    from planner_Inl [OF pool_inv_tids_ok [OF inv] reachable_planner_ok [OF re] this] A_planner
    show ?thesis by simp
  next
    case A_planner_wakeup
    with s planner_wakeup_Inr [of pi] show ?thesis by (auto split: if_splits)
  next
    case (A_worker idx)
    with s worker_Inl [OF inv b, of idx Abort] show ?thesis by simp
  qed
qed

lemma ex_submit_ord_mismatch:
  "\<exists>pi. run [A_planner, A_queue_work WT_ORD1 0] (pool_init None) = Inr pi \<and>
     length (submitted (hist pi)) = 1 \<and> step (A_queue_work 3 0) pi = Inl Abort"
  by (simp add: pool_defs submitted_def)

theorem pool_aborts_only_by_contract_witness:
  "\<exists>pi. run [A_planner, A_queue_work WT_ORD1 0] (pool_init None) = Inr pi \<and>
     reachable None pi \<and> length (submitted (hist pi)) < 2 ^ 32 \<and>
     step (A_queue_work 3 0) pi = Inl Abort \<and> o_prev pi \<noteq> WT_BAR \<and> o_prev pi \<noteq> 3"
proof -
  from ex_submit_ord_mismatch obtain pi where
    r: "run [A_planner, A_queue_work WT_ORD1 0] (pool_init None) = Inr pi"
    and l: "length (submitted (hist pi)) = 1"
    and s: "step (A_queue_work 3 0) pi = Inl Abort"
    by blast
  have re: "reachable None pi" using run_reachable_init [OF r] .
  have l': "length (submitted (hist pi)) < 2 ^ 32" by (simp add: l)
  from pool_aborts_only_by_contract [OF re l' s]
  have "o_prev pi \<noteq> WT_BAR \<and> o_prev pi \<noteq> 3" by simp
  with r re l' s show ?thesis by blast
qed

end
